theory Spec2Isabelle
  imports Complex_Main
begin

section \<open>Loudness normalizer (renderer/loudness-normalizer.js)\<close>

text \<open>
  JavaScript numbers are modelled as exact reals. The only non-finite value the module
  produces on purpose is the \<open>-Infinity\<close> loudness of silence, which gets a constructor of
  its own; rounding of IEEE doubles is outside the model. Block powers that have overflowed
  are covered by a second model of the gate, on numbers with infinities and \<open>NaN\<close>.
\<close>

subsection \<open>Constants\<close>

definition DEFAULT_TARGET :: real where "DEFAULT_TARGET = - 14"
definition RAMP_TIME :: real where "RAMP_TIME = 0.4"
definition PEAK_CEILING :: real where "PEAK_CEILING = - 0.5"

definition BLOCK_DURATION :: real where "BLOCK_DURATION = 0.4"
definition BLOCK_OVERLAP :: real where "BLOCK_OVERLAP = 0.75"
definition ABSOLUTE_GATE :: real where "ABSOLUTE_GATE = - 70"
definition RELATIVE_GATE :: real where "RELATIVE_GATE = - 10"

text \<open>K-weighting coefficients: a shelf stage and a high-pass stage per sample rate.\<close>

record stage =
  coef_b :: "real list"
  coef_a :: "real list"

record k_weight =
  shelf :: stage
  hp :: stage

definition K_WEIGHTS_48000 :: k_weight where
  "K_WEIGHTS_48000 =
     \<lparr>shelf = \<lparr>coef_b = [1.53512485958697, - 2.69169618940638, 1.19839281085285],
                coef_a = [1, - 1.69065929318241, 0.73248077421585]\<rparr>,
      hp = \<lparr>coef_b = [1.0, - 2.0, 1.0],
             coef_a = [1, - 1.99004745483398, 0.99007225036621]\<rparr>\<rparr>"

definition K_WEIGHTS_44100 :: k_weight where
  "K_WEIGHTS_44100 =
     \<lparr>shelf = \<lparr>coef_b = [1.53090959966428, - 2.65116903469122, 1.16903097776360],
                coef_a = [1, - 1.66363794709474, 0.71238064688380]\<rparr>,
      hp = \<lparr>coef_b = [1.0, - 2.0, 1.0],
             coef_a = [1, - 1.98916967210520, 0.98919159781614]\<rparr>\<rparr>"

subsection \<open>Measurements and the closure state\<close>

datatype lufs_val = NegInf | Fin real

record measurement =
  lufs :: lufs_val
  peak :: real

type_synonym track_id = string
type_synonym promise_id = nat

text \<open>
  A gain node keeps the automation events scheduled on its \<open>gain\<close> parameter by
  \<open>setTargetAtTime(value, startTime, timeConstant)\<close>, newest first.
\<close>

type_synonym gain_node = "(real \<times> real \<times> real) list"

record normalizer =
  enabled :: bool
  target :: real
  audioCtx :: "real option"
  gainA :: "gain_node option"
  gainB :: "gain_node option"
  cache :: "track_id \<rightharpoonup> measurement"
  inflight :: "track_id \<rightharpoonup> promise_id"

subsection \<open>Gain computation\<close>

definition computeGain :: "'a normalizer_scheme \<Rightarrow> track_id \<Rightarrow> real" where
  "computeGain s trackId =
     (case cache s trackId of
        None \<Rightarrow> 1
      | Some d \<Rightarrow>
          (case lufs d of
             NegInf \<Rightarrow> 1
           | Fin l \<Rightarrow>
               (let gainDB = target s - l;
                    peakDBFS = 20 * log 10 (if peak d = 0 then 1 / 10000000000 else peak d);
                    maxGainDB = PEAK_CEILING - peakDBFS;
                    gainDB = (if gainDB > maxGainDB then maxGainDB else gainDB)
                in if gainDB > 24 then 1 else 10 powr (gainDB / 20))))"

subsection \<open>K-weighting via biquad filters\<close>

definition getKWeightCoeffs :: "nat \<Rightarrow> k_weight" where
  "getKWeightCoeffs rate =
     (if rate = 48000 then K_WEIGHTS_48000
      else if rate = 44100 then K_WEIGHTS_44100
      else K_WEIGHTS_48000)"

text \<open>
  Direct form II transposed. The source filters a private copy in place; the model returns
  the filtered copy. \<open>z1\<close> and \<open>z2\<close> are the loop's state variables.
\<close>

fun biquad_loop :: "real list \<Rightarrow> real list \<Rightarrow> real \<Rightarrow> real \<Rightarrow> real list \<Rightarrow> real list" where
  "biquad_loop b a z1 z2 [] = []"
| "biquad_loop b a z1 z2 (x # samples) =
     (let y = b ! 0 * x + z1
      in y # biquad_loop b a (b ! 1 * x - a ! 1 * y + z2) (b ! 2 * x - a ! 2 * y) samples)"

definition applyBiquad :: "real list \<Rightarrow> real list \<Rightarrow> real list \<Rightarrow> real list" where
  "applyBiquad samples b a = biquad_loop b a 0 0 samples"

subsection \<open>BS.1770 loudness measurement\<close>

text \<open>
  A decoded buffer. In an \<open>AudioBuffer\<close> every channel holds \<open>length\<close> samples
  (\<open>wf_buffer\<close>), so the block loop never reads past the end of a channel
  (\<open>block_reads_in_range\<close> below).
\<close>

record audio_buffer =
  sampleRate :: nat
  buf_length :: nat
  channelData :: "real list list"

definition numberOfChannels :: "audio_buffer \<Rightarrow> nat" where
  "numberOfChannels audioBuffer = length (channelData audioBuffer)"

definition getChannelData :: "audio_buffer \<Rightarrow> nat \<Rightarrow> real list" where
  "getChannelData audioBuffer ch = channelData audioBuffer ! ch"

definition wf_buffer :: "audio_buffer \<Rightarrow> bool" where
  "wf_buffer audioBuffer =
     list_all (\<lambda>data. length data = buf_length audioBuffer) (channelData audioBuffer)"

text \<open>
  \<open>Math.round\<close>: the nearest integer, halves rounded up. For a whole number of hertz
  0.4 * rate is a multiple of 0.2, never half an integer, and a quarter of a whole number
  is exact in binary, so rounding the products to doubles first gives the same integers.
\<close>

definition js_round :: "real \<Rightarrow> int" where
  "js_round x = \<lfloor>x + 1 / 2\<rfloor>"

definition blockSamples :: "nat \<Rightarrow> nat" where
  "blockSamples rate = nat (js_round (BLOCK_DURATION * real rate))"

definition stepSamples :: "nat \<Rightarrow> nat" where
  "stepSamples rate = nat (js_round (real (blockSamples rate) * (1 - BLOCK_OVERLAP)))"

text \<open>\<open>measureLUFS\<close> up to the list of block powers.\<close>

definition channelWeight :: "nat \<Rightarrow> real list" where
  "channelWeight numChannels = map (\<lambda>ch. if ch \<ge> 3 then 1.41 else 1.0) [0..<numChannels]"

definition kWeighted :: "audio_buffer \<Rightarrow> real list list" where
  "kWeighted audioBuffer =
     (let coeffs = getKWeightCoeffs (sampleRate audioBuffer)
      in map (\<lambda>ch.
           applyBiquad
             (applyBiquad (getChannelData audioBuffer ch)
                (coef_b (shelf coeffs)) (coef_a (shelf coeffs)))
             (coef_b (hp coeffs)) (coef_a (hp coeffs)))
         [0..<numberOfChannels audioBuffer])"

definition sumSq :: "real list \<Rightarrow> nat \<Rightarrow> nat \<Rightarrow> real" where
  "sumSq data start n = foldl (\<lambda>acc i. acc + data ! i * data ! i) 0 [start..<start + n]"

definition blockPower :: "real list list \<Rightarrow> real list \<Rightarrow> nat \<Rightarrow> nat \<Rightarrow> real" where
  "blockPower kw cw n start =
     foldl (\<lambda>acc ch. acc + cw ! ch * (sumSq (kw ! ch) start n / real n)) 0 [0..<length kw]"

text \<open>
  The block loop, \<open>for (start = 0; start + blockSamples <= length; start += stepSamples)\<close>.
  With a step of zero samples it never ends; \<open>None\<close> stands for that.
\<close>

partial_function (option) block_loop ::
  "real list list \<Rightarrow> real list \<Rightarrow> nat \<Rightarrow> nat \<Rightarrow> nat \<Rightarrow> nat \<Rightarrow> real list \<Rightarrow> real list option" where
  "block_loop kw cw n step len start blocks =
     (if start + n \<le> len
      then block_loop kw cw n step len (start + step) (blocks @ [blockPower kw cw n start])
      else Some blocks)"

definition blockPowers :: "audio_buffer \<Rightarrow> real list option" where
  "blockPowers audioBuffer =
     block_loop (kWeighted audioBuffer) (channelWeight (numberOfChannels audioBuffer))
       (blockSamples (sampleRate audioBuffer)) (stepSamples (sampleRate audioBuffer))
       (buf_length audioBuffer) 0 []"

text \<open>Sample peak of the original (not K-weighted) channels.\<close>

definition samplePeak :: "audio_buffer \<Rightarrow> real" where
  "samplePeak audioBuffer =
     foldl (\<lambda>peak ch.
         foldl (\<lambda>peak x. if \<bar>x\<bar> > peak then \<bar>x\<bar> else peak) peak
           (getChannelData audioBuffer ch))
       0 [0..<numberOfChannels audioBuffer]"

text \<open>
  \<open>measureLUFS\<close> from the first gate on; \<open>pk\<close> is the sample peak, which the source
  computes only on the path that returns it.
\<close>

definition absThreshold :: real where
  "absThreshold = 10 powr ((ABSOLUTE_GATE + 0.691) / 10)"

definition gatedLoudness :: "real list \<Rightarrow> real \<Rightarrow> measurement" where
  "gatedLoudness blocks pk =
     (if blocks = [] then \<lparr>lufs = NegInf, peak = 0\<rparr>
      else
        let ungated = filter (\<lambda>p. p > absThreshold) blocks
        in if ungated = [] then \<lparr>lufs = NegInf, peak = 0\<rparr>
           else
             let ungatedMean = foldl (\<lambda>s p. s + p) 0 ungated / real (length ungated);
                 ungatedLUFS = - 0.691 + 10 * log 10 ungatedMean;
                 relThreshold = 10 powr ((ungatedLUFS + RELATIVE_GATE + 0.691) / 10);
                 gated = filter (\<lambda>p. p > relThreshold) blocks
             in if gated = [] then \<lparr>lufs = Fin ungatedLUFS, peak = 0\<rparr>
                else
                  let gatedMean = foldl (\<lambda>s p. s + p) 0 gated / real (length gated)
                  in \<lparr>lufs = Fin (- 0.691 + 10 * log 10 gatedMean), peak = pk\<rparr>)"

text \<open>\<open>measureLUFS\<close>: \<open>None\<close> when the block loop does not end.\<close>

definition measureLUFS :: "audio_buffer \<Rightarrow> measurement option" where
  "measureLUFS audioBuffer =
     (case blockPowers audioBuffer of
        None \<Rightarrow> None
      | Some blocks \<Rightarrow> Some (gatedLoudness blocks (samplePeak audioBuffer)))"

text \<open>
  The block power in the words of the specification: per channel the mean of the squared
  samples of the block, times the weight of the channel (1 for the first three channels,
  1.41 from the fourth on), summed over the channels.
\<close>

definition spec_blockPower :: "real list list \<Rightarrow> nat \<Rightarrow> nat \<Rightarrow> real" where
  "spec_blockPower channels start n =
     (\<Sum>ch = 0..<length channels.
        (if ch < 3 then 1 else 1.41)
          * ((\<Sum>i = start..<start + n. (channels ! ch ! i)\<^sup>2) / real n))"

subsection \<open>The gate on JavaScript numbers\<close>

text \<open>
  The K-weighted copy of a channel is a \<open>Float32Array\<close>: a filter output beyond the
  range of single precision is stored as an infinity, and the power of a block that holds
  it is \<open>Infinity\<close> or \<open>NaN\<close>. To cover such block powers the gate of
  \<open>measureLUFS\<close> is modelled a second time, on JavaScript numbers with their special
  values. Operations on finite numbers stay exact (no rounding, no overflow); operations
  with an infinite or \<open>NaN\<close> operand follow IEEE 754. Zero has no sign here: the
  only divisors are a list length and the constant 10.
\<close>

datatype jsnum = Num real | PInf | MInf | NaN

fun js_add :: "jsnum \<Rightarrow> jsnum \<Rightarrow> jsnum" where
  "js_add NaN y = NaN"
| "js_add x NaN = NaN"
| "js_add PInf MInf = NaN"
| "js_add MInf PInf = NaN"
| "js_add PInf y = PInf"
| "js_add x PInf = PInf"
| "js_add MInf y = MInf"
| "js_add x MInf = MInf"
| "js_add (Num a) (Num b) = Num (a + b)"

fun js_mul :: "jsnum \<Rightarrow> jsnum \<Rightarrow> jsnum" where
  "js_mul NaN y = NaN"
| "js_mul x NaN = NaN"
| "js_mul (Num a) (Num b) = Num (a * b)"
| "js_mul (Num a) PInf = (if a > 0 then PInf else if a < 0 then MInf else NaN)"
| "js_mul (Num a) MInf = (if a > 0 then MInf else if a < 0 then PInf else NaN)"
| "js_mul PInf (Num b) = (if b > 0 then PInf else if b < 0 then MInf else NaN)"
| "js_mul MInf (Num b) = (if b > 0 then MInf else if b < 0 then PInf else NaN)"
| "js_mul PInf PInf = PInf"
| "js_mul MInf MInf = PInf"
| "js_mul PInf MInf = MInf"
| "js_mul MInf PInf = MInf"

fun js_div :: "jsnum \<Rightarrow> jsnum \<Rightarrow> jsnum" where
  "js_div NaN y = NaN"
| "js_div x NaN = NaN"
| "js_div (Num a) (Num b) =
     (if b = 0 then (if a > 0 then PInf else if a < 0 then MInf else NaN) else Num (a / b))"
| "js_div (Num a) PInf = Num 0"
| "js_div (Num a) MInf = Num 0"
| "js_div PInf (Num b) = (if b \<ge> 0 then PInf else MInf)"
| "js_div MInf (Num b) = (if b \<ge> 0 then MInf else PInf)"
| "js_div PInf PInf = NaN"
| "js_div PInf MInf = NaN"
| "js_div MInf PInf = NaN"
| "js_div MInf MInf = NaN"

text \<open>The comparison \<open>x > y\<close>: false as soon as one side is \<open>NaN\<close>.\<close>

fun js_gt :: "jsnum \<Rightarrow> jsnum \<Rightarrow> bool" where
  "js_gt NaN y = False"
| "js_gt x NaN = False"
| "js_gt (Num a) (Num b) = (a > b)"
| "js_gt PInf PInf = False"
| "js_gt PInf y = True"
| "js_gt MInf y = False"
| "js_gt (Num a) MInf = True"
| "js_gt (Num a) PInf = False"

fun js_log10 :: "jsnum \<Rightarrow> jsnum" where
  "js_log10 (Num r) = (if r > 0 then Num (log 10 r) else if r = 0 then MInf else NaN)"
| "js_log10 PInf = PInf"
| "js_log10 MInf = NaN"
| "js_log10 NaN = NaN"

text \<open>\<open>Math.pow(10, x)\<close>.\<close>

fun js_pow10 :: "jsnum \<Rightarrow> jsnum" where
  "js_pow10 (Num e) = Num (10 powr e)"
| "js_pow10 PInf = PInf"
| "js_pow10 MInf = Num 0"
| "js_pow10 NaN = NaN"

record js_measurement =
  js_lufs :: jsnum
  js_peak :: real

text \<open>
  \<open>measureLUFS\<close> from the first gate on, as \<open>gatedLoudness\<close>, with block powers
  that may be infinite or \<open>NaN\<close>.
\<close>

definition gate_js :: "jsnum list \<Rightarrow> real \<Rightarrow> js_measurement" where
  "gate_js blocks pk =
     (if blocks = [] then \<lparr>js_lufs = MInf, js_peak = 0\<rparr>
      else
        let absThr = js_pow10 (js_div (js_add (Num ABSOLUTE_GATE) (Num 0.691)) (Num 10));
            ungated = filter (\<lambda>p. js_gt p absThr) blocks
        in if ungated = [] then \<lparr>js_lufs = MInf, js_peak = 0\<rparr>
           else
             let ungatedMean =
                   js_div (foldl (\<lambda>s p. js_add s p) (Num 0) ungated) (Num (real (length ungated)));
                 ungatedLUFS = js_add (Num (- 0.691)) (js_mul (Num 10) (js_log10 ungatedMean));
                 relThreshold =
                   js_pow10 (js_div (js_add (js_add ungatedLUFS (Num RELATIVE_GATE)) (Num 0.691))
                               (Num 10));
                 gated = filter (\<lambda>p. js_gt p relThreshold) blocks
             in if gated = [] then \<lparr>js_lufs = ungatedLUFS, js_peak = 0\<rparr>
                else
                  let gatedMean =
                        js_div (foldl (\<lambda>s p. js_add s p) (Num 0) gated) (Num (real (length gated)))
                  in \<lparr>js_lufs = js_add (Num (- 0.691)) (js_mul (Num 10) (js_log10 gatedMean)),
                       js_peak = pk\<rparr>)"

text \<open>A measurement of the model over the reals, read as one over JavaScript numbers.\<close>

definition to_js :: "measurement \<Rightarrow> js_measurement" where
  "to_js m =
     \<lparr>js_lufs = (case lufs m of NegInf \<Rightarrow> MInf | Fin l \<Rightarrow> Num l), js_peak = peak m\<rparr>"

subsection \<open>Audio context and gain nodes\<close>

datatype audio_el = AudioA | AudioB | OtherEl

text \<open>A fresh context starts its clock at 0; its two gain nodes have nothing scheduled.\<close>

definition initAudioContext :: "'a normalizer_scheme \<Rightarrow> 'a normalizer_scheme" where
  "initAudioContext s =
     (case audioCtx s of
        Some t \<Rightarrow> s
      | None \<Rightarrow> s\<lparr>audioCtx := Some 0, gainA := Some [], gainB := Some []\<rparr>)"

definition getGainNode :: "'a normalizer_scheme \<Rightarrow> audio_el \<Rightarrow> gain_node option" where
  "getGainNode s audioEl =
     (case audioCtx s of
        None \<Rightarrow> None
      | Some t \<Rightarrow>
          (if audioEl = AudioA then gainA s else if audioEl = AudioB then gainB s else None))"

text \<open>\<open>node.gain.setTargetAtTime(v, t, tc)\<close> on the node of \<open>audioEl\<close>.\<close>

definition setTargetAtTime ::
  "audio_el \<Rightarrow> real \<Rightarrow> real \<Rightarrow> real \<Rightarrow> 'a normalizer_scheme \<Rightarrow> 'a normalizer_scheme" where
  "setTargetAtTime audioEl v t tc s =
     (if audioEl = AudioA then s\<lparr>gainA := map_option ((#) (v, t, tc)) (gainA s)\<rparr>
      else if audioEl = AudioB then s\<lparr>gainB := map_option ((#) (v, t, tc)) (gainB s)\<rparr>
      else s)"

subsection \<open>Apply and reset\<close>

definition applyGain :: "'a normalizer_scheme \<Rightarrow> audio_el \<Rightarrow> track_id \<Rightarrow> 'a normalizer_scheme" where
  "applyGain s audioEl trackId =
     (if \<not> enabled s then s
      else case audioCtx s of
        None \<Rightarrow> s
      | Some currentTime \<Rightarrow>
          (case getGainNode s audioEl of
             None \<Rightarrow> s
           | Some node \<Rightarrow>
               setTargetAtTime audioEl (computeGain s trackId) currentTime (RAMP_TIME / 3) s))"

definition resetGain :: "'a normalizer_scheme \<Rightarrow> audio_el \<Rightarrow> 'a normalizer_scheme" where
  "resetGain s audioEl =
     (case audioCtx s of
        None \<Rightarrow> s
      | Some currentTime \<Rightarrow>
          (case getGainNode s audioEl of
             None \<Rightarrow> s
           | Some node \<Rightarrow> setTargetAtTime audioEl 1.0 currentTime (RAMP_TIME / 3) s))"

subsection \<open>Configuration\<close>

definition setEnabled :: "'a normalizer_scheme \<Rightarrow> bool \<Rightarrow> 'a normalizer_scheme" where
  "setEnabled s val =
     (let s = s\<lparr>enabled := val\<rparr>
      in if \<not> enabled s then resetGain (resetGain s AudioA) AudioB else s)"

definition setTarget :: "'a normalizer_scheme \<Rightarrow> real \<Rightarrow> 'a normalizer_scheme" where
  "setTarget s l = s\<lparr>target := l\<rparr>"

definition clearCache :: "'a normalizer_scheme \<Rightarrow> 'a normalizer_scheme" where
  "clearCache s = s\<lparr>cache := Map.empty, inflight := Map.empty\<rparr>"

definition destroy :: "'a normalizer_scheme \<Rightarrow> 'a normalizer_scheme" where
  "destroy s =
     (let s = clearCache s
      in case audioCtx s of None \<Rightarrow> s | Some t \<Rightarrow> s\<lparr>audioCtx := None\<rparr>)"

subsection \<open>Analysis: promises as explicit state\<close>

text \<open>
  The module runs on one thread; an \<open>async\<close> function runs until its first
  \<open>await\<close> and is resumed later. The world adds to the closure state what is needed to
  follow that: the \<open>src\<close> of each audio element (set by the host), the log of
  \<open>fetch\<close> calls, the analysis bodies that have started and not finished
  (\<open>pending\<close>, promise and track), the values of finished promises (\<open>settled\<close>,
  \<open>None\<close> for \<open>null\<close>), and the \<open>analyzeAndApply\<close> calls suspended at their
  \<open>await\<close>. The promise of the n-th started body is numbered n.
\<close>

datatype 'a awaited = Resolved 'a | Pending promise_id

record world = normalizer +
  src :: "audio_el \<Rightarrow> string"
  fetches :: "(string \<times> track_id) list"
  pending :: "(promise_id \<times> track_id) list"
  settled :: "promise_id \<rightharpoonup> measurement option"
  waiters :: "(measurement option awaited \<times> audio_el \<times> string \<times> track_id) list"

definition init_world :: world where
  "init_world =
     \<lparr>enabled = False, target = DEFAULT_TARGET, audioCtx = None, gainA = None, gainB = None,
      cache = Map.empty, inflight = Map.empty,
      src = (\<lambda>audioEl. []), fetches = [], pending = [], settled = Map.empty, waiters = []\<rparr>"

text \<open>
  The synchronous part of \<open>analyzeLUFS\<close>: a cached value, the promise in flight, or a
  new body, which calls \<open>fetch(url)\<close> before it first suspends.
\<close>

definition analyzeLUFS :: "world \<Rightarrow> string \<Rightarrow> track_id \<Rightarrow> measurement option awaited \<times> world" where
  "analyzeLUFS s url trackId =
     (case cache s trackId of
        Some m \<Rightarrow> (Resolved (Some m), s)
      | None \<Rightarrow>
          (case inflight s trackId of
             Some p \<Rightarrow> (Pending p, s)
           | None \<Rightarrow>
               (let promise = length (fetches s)
                in (Pending promise,
                    s\<lparr>inflight := (inflight s)(trackId \<mapsto> promise),
                      fetches := fetches s @ [(url, trackId)],
                      pending := pending s @ [(promise, trackId)]\<rparr>))))"

text \<open>What the network and the decoder hand to a started body.\<close>

datatype fetch_outcome =
  FetchRejected | ResponseNotOk nat | DecodeRejected | Decoded audio_buffer

datatype analysis_error = FetchError | HttpError nat | DecodeError

text \<open>
  The \<open>try\<close> block: \<open>Inl\<close> is a thrown error, \<open>Inr\<close> the measurement, and
  \<open>None\<close> a measurement that never returns.
\<close>

fun analysis_try :: "fetch_outcome \<Rightarrow> (analysis_error + measurement) option" where
  "analysis_try FetchRejected = Some (Inl FetchError)"
| "analysis_try (ResponseNotOk status) = Some (Inl (HttpError status))"
| "analysis_try DecodeRejected = Some (Inl DecodeError)"
| "analysis_try (Decoded audioBuffer) = map_option Inr (measureLUFS audioBuffer)"

text \<open>
  The rest of the body of promise \<open>p\<close>, run in one piece once the last \<open>await\<close>
  returns or throws: cache the result or catch the error, then \<open>finally\<close> delete the
  in-flight entry of the track.
\<close>

definition settle :: "world \<Rightarrow> promise_id \<Rightarrow> fetch_outcome \<Rightarrow> world option" where
  "settle s p outcome =
     (case map_of (pending s) p of
        None \<Rightarrow> None
      | Some trackId \<Rightarrow>
          (case analysis_try outcome of
             None \<Rightarrow> None
           | Some (Inr result) \<Rightarrow>
               Some (s\<lparr>cache := (cache s)(trackId \<mapsto> result),
                       inflight := (inflight s)(trackId := None),
                       pending := filter (\<lambda>(q, t). q \<noteq> p) (pending s),
                       settled := (settled s)(p \<mapsto> Some result)\<rparr>)
           | Some (Inl err) \<Rightarrow>
               Some (s\<lparr>inflight := (inflight s)(trackId := None),
                       pending := filter (\<lambda>(q, t). q \<noteq> p) (pending s),
                       settled := (settled s)(p \<mapsto> None)\<rparr>)))"

text \<open>\<open>analyzeAndApply\<close> up to its \<open>await\<close>.\<close>

definition analyzeAndApply :: "world \<Rightarrow> audio_el \<Rightarrow> string \<Rightarrow> track_id \<Rightarrow> world" where
  "analyzeAndApply s audioEl url trackId =
     (if \<not> enabled s then s
      else
        let s = (if audioCtx s = None then initAudioContext s else s)
        in if cache s trackId \<noteq> None then applyGain s audioEl trackId
           else
             let s = (case getGainNode s audioEl of
                        None \<Rightarrow> s
                      | Some node \<Rightarrow>
                          (case audioCtx s of
                             None \<Rightarrow> s
                           | Some currentTime \<Rightarrow> setTargetAtTime audioEl 1.0 currentTime 0.05 s));
                 (result, s) = analyzeLUFS s url trackId
             in s\<lparr>waiters := waiters s @ [(result, audioEl, url, trackId)]\<rparr>)"

text \<open>\<open>analyzeAndApply\<close> after its \<open>await\<close>, in the state of that later moment.\<close>

definition analyzeAndApply_resume ::
  "world \<Rightarrow> measurement option \<Rightarrow> audio_el \<Rightarrow> string \<Rightarrow> track_id \<Rightarrow> world" where
  "analyzeAndApply_resume s result audioEl url trackId =
     (case result of
        None \<Rightarrow> s
      | Some r \<Rightarrow>
          (if src s audioEl \<noteq> [] \<and> src s audioEl = url then applyGain s audioEl trackId
           else s))"

definition preAnalyze :: "world \<Rightarrow> string \<Rightarrow> track_id \<Rightarrow> world" where
  "preAnalyze s url trackId =
     (if \<not> enabled s then s
      else if cache s trackId \<noteq> None \<or> inflight s trackId \<noteq> None then s
      else snd (analyzeLUFS s url trackId))"

subsection \<open>Runs of the module\<close>

text \<open>
  What can happen to a world: a call of the public interface, the end of a pending
  analysis body, the resumption of a suspended \<open>analyzeAndApply\<close> whose promise has a
  value, the host loading another source into an element, the audio clock moving on.
\<close>

datatype event =
  CallInitAudioContext
| CallSetEnabled bool
| CallSetTarget real
| CallAnalyzeAndApply audio_el string track_id
| CallPreAnalyze string track_id
| CallApplyGain audio_el track_id
| CallResetGain audio_el
| CallClearCache
| CallDestroy
| Settle promise_id fetch_outcome
| Resume nat
| HostSetSrc audio_el string
| ClockAdvance real

definition resume :: "world \<Rightarrow> nat \<Rightarrow> world option" where
  "resume s i =
     (if i < length (waiters s)
      then
        (case waiters s ! i of
           (Resolved v, audioEl, url, trackId) \<Rightarrow>
             Some (analyzeAndApply_resume
                     (s\<lparr>waiters := take i (waiters s) @ drop (Suc i) (waiters s)\<rparr>)
                     v audioEl url trackId)
         | (Pending p, audioEl, url, trackId) \<Rightarrow>
             (case settled s p of
                None \<Rightarrow> None
              | Some v \<Rightarrow>
                  Some (analyzeAndApply_resume
                          (s\<lparr>waiters := take i (waiters s) @ drop (Suc i) (waiters s)\<rparr>)
                          v audioEl url trackId)))
      else None)"

fun exec :: "event \<Rightarrow> world \<Rightarrow> world option" where
  "exec CallInitAudioContext s = Some (initAudioContext s)"
| "exec (CallSetEnabled val) s = Some (setEnabled s val)"
| "exec (CallSetTarget l) s = Some (setTarget s l)"
| "exec (CallAnalyzeAndApply audioEl url trackId) s = Some (analyzeAndApply s audioEl url trackId)"
| "exec (CallPreAnalyze url trackId) s = Some (preAnalyze s url trackId)"
| "exec (CallApplyGain audioEl trackId) s = Some (applyGain s audioEl trackId)"
| "exec (CallResetGain audioEl) s = Some (resetGain s audioEl)"
| "exec CallClearCache s = Some (clearCache s)"
| "exec CallDestroy s = Some (destroy s)"
| "exec (Settle p outcome) s = settle s p outcome"
| "exec (Resume i) s = resume s i"
| "exec (HostSetSrc audioEl url) s = Some (s\<lparr>src := (src s)(audioEl := url)\<rparr>)"
| "exec (ClockAdvance dt) s = Some (s\<lparr>audioCtx := map_option (\<lambda>t. t + dt) (audioCtx s)\<rparr>)"

fun run :: "event list \<Rightarrow> world \<Rightarrow> world option" where
  "run [] s = Some s"
| "run (e # es) s = (case exec e s of None \<Rightarrow> None | Some s' \<Rightarrow> run es s')"

text \<open>
  \<open>clearCache\<close> and \<open>destroy\<close> forget the in-flight table without stopping the
  bodies. A run is calm when it calls them only while no body is pending.
\<close>

fun calm :: "event list \<Rightarrow> world \<Rightarrow> bool" where
  "calm [] s = True"
| "calm (e # es) s =
     ((e \<in> {CallClearCache, CallDestroy} \<longrightarrow> pending s = [])
      \<and> (case exec e s of None \<Rightarrow> True | Some s' \<Rightarrow> calm es s'))"

text \<open>Several calls of \<open>analyzeLUFS\<close> for one track, one after the other.\<close>

fun analyzeLUFS_calls ::
  "world \<Rightarrow> string list \<Rightarrow> track_id \<Rightarrow> measurement option awaited list \<times> world" where
  "analyzeLUFS_calls s [] trackId = ([], s)"
| "analyzeLUFS_calls s (url # urls) trackId =
     (let (r, s1) = analyzeLUFS s url trackId;
          (rs, s2) = analyzeLUFS_calls s1 urls trackId
      in (r # rs, s2))"

text \<open>
  The invariant behind deduplication: every pending body is the one registered in the
  in-flight table for its track, its track is not cached, its promise number is one
  already given out; every in-flight entry names a pending body; no promise is pending
  twice.
\<close>

definition dedup_inv :: "world \<Rightarrow> bool" where
  "dedup_inv s \<longleftrightarrow>
     (\<forall>p t. (p, t) \<in> set (pending s) \<longrightarrow>
        inflight s t = Some p \<and> cache s t = None \<and> p < length (fetches s))
     \<and> (\<forall>t p. inflight s t = Some p \<longrightarrow> (p, t) \<in> set (pending s))
     \<and> distinct (map fst (pending s))"

subsection \<open>Test signals\<close>

text \<open>
  One channel at 48 kHz: a block of digital silence followed by one sample at half scale,
  which lies in no full block.
\<close>

definition silent_tail :: audio_buffer where
  "silent_tail =
     \<lparr>sampleRate = 48000, buf_length = 19201,
      channelData = [replicate 19200 0 @ [1 / 2]]\<rparr>"

text \<open>
  One channel at 48 kHz, 24000 samples, hence two blocks. The first five samples are the
  denominators of the two 48 kHz filter stages multiplied out and scaled by 0.003, so both
  stages are back at rest after them; they lie in the first block only. The last
  sample, 0.06, lies in the second block only.
\<close>

definition two_pulses :: audio_buffer where
  "two_pulses =
     \<lparr>sampleRate = 48000, buf_length = 24000,
      channelData =
        [[0.003, - 0.01104212024404917, 0.0152611357439133918462372188754,
          - 0.0093946390543401903717157948473, 0.0021756266654336111384642592855]
         @ replicate 23994 0 @ [0.06]]\<rparr>"

text \<open>
  One channel at 48 kHz, exactly one block: the five scaled samples of \<open>two_pulses\<close>,
  then silence.
\<close>

definition faint_pulse :: audio_buffer where
  "faint_pulse =
     \<lparr>sampleRate = 48000, buf_length = 19200,
      channelData =
        [[0.003, - 0.01104212024404917, 0.0152611357439133918462372188754,
          - 0.0093946390543401903717157948473, 0.0021756266654336111384642592855]
         @ replicate 19195 0]\<rparr>"

text \<open>Three samples at 48 kHz: shorter than one block.\<close>

definition short_clip :: audio_buffer where
  "short_clip = \<lparr>sampleRate = 48000, buf_length = 3, channelData = [[1 / 2, - (1 / 4), 1 / 10]]\<rparr>"

section \<open>Properties\<close>

subsection \<open>Iteration as summation\<close>

lemma foldl_add_sum_list: "foldl (\<lambda>s p. s + p) a xs = a + sum_list (xs :: real list)"
  by (induction xs arbitrary: a) simp_all

lemma foldl_add_upt:
  "foldl (\<lambda>acc i. acc + f i) a [m..<n] = a + (\<Sum>i = m..<n. (f i :: real))"
proof (induction n)
  case 0
  then show ?case by simp
next
  case (Suc n)
  then show ?case by (cases "m \<le> n") simp_all
qed

lemma sumSq_sum: "sumSq data start n = (\<Sum>i = start..<start + n. data ! i * data ! i)"
  by (simp add: sumSq_def foldl_add_upt)

lemma sum_nth_drop:
  "start + n \<le> length (data :: real list) \<Longrightarrow> (\<Sum>i = start..<start + n. f (data ! i)) = sum_list (map f (take n (drop start data)))"
proof -
  assume le: "start + n \<le> length data"
  have "sum_list (map f (take n (drop start data))) = (\<Sum>i = 0..<n. f (take n (drop start data) ! i))"
    using le by (simp add: sum_list_sum_nth atLeast0LessThan)
  also have "\<dots> = (\<Sum>i = 0..<n. f (data ! (start + i)))"
    using le by (intro sum.cong) simp_all
  also have "\<dots> = (\<Sum>i = start..<start + n. f (data ! i))"
    using sum.shift_bounds_nat_ivl [of "\<lambda>i. f (data ! i)" 0 start n] by (simp add: add.commute)
  finally show ?thesis by simp
qed

lemma sumSq_take_drop:
  "start + n \<le> length data \<Longrightarrow> sumSq data start n = sum_list (map (\<lambda>x. x * x) (take n (drop start data)))"
  unfolding sumSq_sum by (rule sum_nth_drop)

lemma blockPower_sum:
  "blockPower kw cw n start = (\<Sum>ch = 0..<length kw. cw ! ch * (sumSq (kw ! ch) start n / real n))"
  by (simp add: blockPower_def foldl_add_upt)

lemma js_round_blockSamples: "blockSamples 48000 = 19200" "stepSamples 48000 = 4800"
  by (simp_all add: blockSamples_def stepSamples_def js_round_def BLOCK_DURATION_def BLOCK_OVERLAP_def)

lemma blockSamples_ge: assumes "4 \<le> rate" shows "2 \<le> blockSamples rate"
proof -
  have "(2::int) \<le> \<lfloor>BLOCK_DURATION * real rate + 1 / 2\<rfloor>"
    using assms by (simp add: le_floor_iff BLOCK_DURATION_def)
  then have "2 \<le> nat \<lfloor>BLOCK_DURATION * real rate + 1 / 2\<rfloor>" by linarith
  then show ?thesis by (simp only: blockSamples_def js_round_def)
qed

lemma stepSamples_pos: assumes "4 \<le> rate" shows "0 < stepSamples rate"
proof -
  have "(1::int) \<le> \<lfloor>real (blockSamples rate) * (1 - BLOCK_OVERLAP) + 1 / 2\<rfloor>"
    using blockSamples_ge [OF assms] by (simp add: le_floor_iff BLOCK_OVERLAP_def)
  then have "0 < nat \<lfloor>real (blockSamples rate) * (1 - BLOCK_OVERLAP) + 1 / 2\<rfloor>" by linarith
  then show ?thesis by (simp only: stepSamples_def js_round_def)
qed

lemma biquad_zeros:
  "biquad_loop b a 0 0 (replicate n 0 @ xs) = replicate n 0 @ biquad_loop b a 0 0 xs"
  by (induction n) (simp_all add: Let_def)

lemma rel_threshold: 
  assumes "0 < m"
  shows "10 powr ((- 0.691 + 10 * log 10 m + RELATIVE_GATE + 0.691) / 10) = m / 10"
proof -
  have e: "(- 0.691 + 10 * log 10 m + RELATIVE_GATE + 0.691) / 10 = log 10 m - 1"
    by (simp add: RELATIVE_GATE_def)
  have "10 powr (log 10 m - 1) = 10 powr (log 10 m) / 10 powr 1"
    by (rule powr_diff)
  also have "\<dots> = m / 10" using assms by simp
  finally show ?thesis unfolding e .
qed

lemma absThreshold_pos: "0 < absThreshold" by (simp add: absThreshold_def)

lemma max_ge_mean:
  assumes "xs \<noteq> []" shows "\<exists>x\<in>set xs. sum_list xs / real (length xs) \<le> (x::real)"
proof (rule ccontr)
  assume "\<not> ?thesis"
  then have lt: "\<forall>x\<in>set xs. x < sum_list xs / real (length xs)" by auto
  have "sum_list (map (\<lambda>x. x) xs) < sum_list (map (\<lambda>_. sum_list xs / real (length xs)) xs)"
    using assms lt by (intro sum_list_strict_mono) auto
  then have "sum_list xs < sum_list (map (\<lambda>_. sum_list xs / real (length xs)) xs)"
    by simp
  also have "\<dots> = sum_list xs"
    using assms by (simp add: sum_list_triv)
  finally show False by simp
qed

lemma relative_gate_keeps_a_block:
  assumes "filter (\<lambda>p. p > absThreshold) blocks \<noteq> []"
  shows "filter (\<lambda>p. p > sum_list (filter (\<lambda>p. p > absThreshold) blocks) / real (length (filter (\<lambda>p. p > absThreshold) blocks)) / 10) blocks \<noteq> []"
proof -
  let ?u = "filter (\<lambda>p. p > absThreshold) blocks"
  define m where "m = sum_list ?u / real (length ?u)"
  obtain x where x: "x \<in> set ?u" "m \<le> x"
    using max_ge_mean [OF assms] unfolding m_def by blast
  then have "0 < x" using absThreshold_pos by auto
  then have "m / 10 < x" using x(2) by linarith
  moreover have "x \<in> set blocks" using x(1) by simp
  ultimately have "filter (\<lambda>p. p > m / 10) blocks \<noteq> []"
    by (auto simp: filter_empty_conv)
  then show ?thesis unfolding m_def .
qed

subsection \<open>The block loop\<close>

lemma upt_map_shift:
  "map f [0..<Suc c] = f 0 # map (\<lambda>k. f (Suc k)) [0..<c]"
proof -
  have "[0..<Suc c] = 0 # map Suc [0..<c]"
    by (simp add: upt_conv_Cons map_Suc_upt del: upt_Suc)
  then show ?thesis by (simp add: comp_def del: upt_Suc)
qed

lemma block_loop_from:
  assumes "0 < step"
  shows "block_loop kw cw n step len start blocks =
     Some (blocks @ map (\<lambda>k. blockPower kw cw n (start + k * step))
        [0..<(if start + n \<le> len then (len - n - start) div step + 1 else 0)])"
proof (induction "Suc len - start" arbitrary: start blocks rule: less_induct)
  case less
  show ?case
  proof (cases "start + n \<le> len")
    case False
    then show ?thesis by (subst block_loop.simps) simp
  next
    case True
    have dec: "Suc len - (start + step) < Suc len - start" using True assms by simp
    let ?c = "(if start + step + n \<le> len then (len - n - (start + step)) div step + 1 else 0)"
    have cnt: "(len - n - start) div step + 1 = Suc ?c"
    proof (cases "start + step + n \<le> len")
      case True
      then have "len - n - start = (len - n - (start + step)) + step" by simp
      then have "(len - n - start) div step = (len - n - (start + step)) div step + 1"
        using assms by (metis div_add_self2 less_numeral_extra(3))
      then show ?thesis using True by simp
    next
      case False
      then have "len - n - start < step" using True by simp
      then show ?thesis using False by simp
    qed
    have "block_loop kw cw n step len start blocks =
        block_loop kw cw n step len (start + step) (blocks @ [blockPower kw cw n start])"
      using True by (subst block_loop.simps) simp
    also have "\<dots> = Some ((blocks @ [blockPower kw cw n start]) @
        map (\<lambda>k. blockPower kw cw n (start + step + k * step)) [0..<?c])"
      using less [OF dec] by (simp add: add.assoc)
    also have "\<dots> = Some (blocks @ map (\<lambda>k. blockPower kw cw n (start + k * step)) [0..<Suc ?c])"
      unfolding upt_map_shift by (simp add: add.assoc add.commute)
    finally show ?thesis using True cnt by simp
  qed
qed


lemma block_loop_stuck:
  assumes "start + n \<le> len"
  shows "block_loop kw cw n 0 len start blocks = None"
proof (cases "block_loop kw cw n 0 len start blocks")
  case None
  then show ?thesis .
next
  case (Some y)
  have "\<not> (0 = (0::nat) \<and> start + n \<le> len)"
  proof (rule block_loop.raw_induct [where P = "\<lambda>kw cw n step len start blocks y. \<not> (step = 0 \<and> start + n \<le> len)", OF _ Some], goal_cases)
    case (1 f kw cw n step len start blocks y)
    show ?case
    proof
      assume stuck: "step = 0 \<and> start + n \<le> len"
      with 1(2) have "f kw cw n step len (start + step) (blocks @ [blockPower kw cw n start]) = Some y"
        by simp
      from 1(1) [OF this] stuck show False by simp
    qed
  qed
  with assms show ?thesis by simp
qed


subsection \<open>Block powers\<close>

lemma sum_list_zeros: "sum_list (replicate n (0::real)) = 0"
  by (induction n) simp_all

lemma blockPowers_eq:
  assumes "4 \<le> sampleRate buf"
  shows "blockPowers buf =
     Some (map (\<lambda>k. blockPower (kWeighted buf) (channelWeight (numberOfChannels buf))
                  (blockSamples (sampleRate buf)) (k * stepSamples (sampleRate buf)))
        [0..<(if blockSamples (sampleRate buf) \<le> buf_length buf
              then (buf_length buf - blockSamples (sampleRate buf)) div stepSamples (sampleRate buf) + 1
              else 0)])"
  unfolding blockPowers_def
  using block_loop_from [OF stepSamples_pos [OF assms], where start = 0 and blocks = "[]"]
  by simp

lemma biquad_zeros_only: "biquad_loop b a 0 0 (replicate n 0) = replicate n 0"
  using biquad_zeros [of b a n "[]"] by simp

lemma blockPower_spec:
  "blockPower kw (channelWeight (length kw)) n start = spec_blockPower kw start n"
proof -
  have "channelWeight (length kw) ! ch = (if ch < 3 then 1 else 1.41)" if "ch < length kw" for ch
    using that by (auto simp: channelWeight_def)
  then show ?thesis
    unfolding blockPower_sum spec_blockPower_def sumSq_sum
    by (intro sum.cong) (simp_all add: power2_eq_square)
qed

lemma kWeighted_length: "length (kWeighted buf) = numberOfChannels buf"
  by (simp add: kWeighted_def Let_def)

lemma biquad_loop_length: "length (biquad_loop b a z1 z2 xs) = length xs"
  by (induction xs arbitrary: z1 z2) (simp_all add: Let_def)

lemma block_reads_in_range:
  assumes "wf_buffer buf" and "ch < numberOfChannels buf"
    and "start + n \<le> buf_length buf" and "i < start + n"
  shows "i < length (kWeighted buf ! ch)"
proof -
  have "length (getChannelData buf ch) = buf_length buf"
    using assms(1,2)
    by (simp add: wf_buffer_def numberOfChannels_def getChannelData_def list_all_length)
  then have "length (kWeighted buf ! ch) = buf_length buf"
    using assms(2) by (simp add: kWeighted_def Let_def applyBiquad_def biquad_loop_length)
  then show ?thesis using assms(3,4) by simp
qed

lemma wf_test_signals:
  "wf_buffer silent_tail" "wf_buffer two_pulses" "wf_buffer faint_pulse" "wf_buffer short_clip"
  by (simp_all add: wf_buffer_def silent_tail_def two_pulses_def faint_pulse_def short_clip_def)

lemma block_count:
  assumes "0 < step"
  shows "k < (if n \<le> len then (len - n) div step + 1 else 0) \<longleftrightarrow> k * step + n \<le> (len::nat)"
proof (cases "n \<le> len")
  case False
  then show ?thesis by simp
next
  case True
  have "k < (len - n) div step + 1 \<longleftrightarrow> k \<le> (len - n) div step" by auto
  also have "\<dots> \<longleftrightarrow> k * step \<le> len - n"
    using assms by (simp add: less_eq_div_iff_mult_less_eq)
  also have "\<dots> \<longleftrightarrow> k * step + n \<le> len" using True by auto
  finally show ?thesis using True by simp
qed

lemma blockPowers_short:
  assumes "buf_length buf < blockSamples (sampleRate buf)"
  shows "blockPowers buf = Some []"
  unfolding blockPowers_def using assms by (subst block_loop.simps) simp

lemma channelWeight_mono: "channelWeight 1 = [1]"
  by (simp add: channelWeight_def)


subsection \<open>The gate thresholds\<close>

lemma absThreshold_lower: "1 / 10000000 \<le> absThreshold"
proof -
  have "(10::real) powr (- 7) \<le> 10 powr ((ABSOLUTE_GATE + 0.691) / 10)"
    by (rule powr_mono) (simp_all add: ABSOLUTE_GATE_def)
  moreover have "(10::real) powr (- 7) = 1 / 10 ^ 7"
    by (simp add: powr_minus_divide)
  ultimately show ?thesis by (simp add: absThreshold_def)
qed

lemma absThreshold_upper: "absThreshold < 317 / 1000000000"
proof -
  have le: "absThreshold \<le> 10 powr (- (13 / 2))"
    unfolding absThreshold_def by (rule powr_mono) (simp_all add: ABSOLUTE_GATE_def)
  have "(10 powr (- (13 / 2))) ^ 2 = (10::real) powr (- 13)"
    by (simp add: powr_power)
  also have "\<dots> = 1 / 10 ^ 13" by (simp add: powr_minus_divide)
  also have "\<dots> < (317 / 1000000000) ^ 2" by (simp add: power2_eq_square)
  finally have "(10::real) powr (- (13 / 2)) < 317 / 1000000000"
    by (rule power2_less_imp_less) simp
  with le show ?thesis by linarith
qed

lemma peak_fold_zeros:
  "0 \<le> pk \<Longrightarrow> foldl (\<lambda>peak x. if \<bar>x\<bar> > peak then \<bar>x\<bar> else peak) pk (replicate n (0::real)) = pk"
  by (induction n) simp_all


subsection \<open>The test signals, measured\<close>

lemma kWeighted_two_pulses:
  "kWeighted two_pulses =
     [[0.00460537457876091, - 0.01728583772574096, 0.02435073014775774,
       - 0.01526544543333624, 0.00359517843255855] @ replicate 23994 0 @ [0.0921074915752182]]"
  by (simp add: kWeighted_def two_pulses_def numberOfChannels_def getChannelData_def
      getKWeightCoeffs_def K_WEIGHTS_48000_def applyBiquad_def Let_def biquad_zeros
      cong: let_weak_cong)

lemma blockPowers_two_pulses:
  "blockPowers two_pulses =
     Some [1931544753100607893848662951829 / 32000000000000000000000000000000000000,
           70698250035657430749569813427 / 160000000000000000000000000000000000]"
proof -
  have sr: "sampleRate two_pulses = 48000" "buf_length two_pulses = 24000"
    "numberOfChannels two_pulses = 1"
    by (simp_all add: two_pulses_def numberOfChannels_def)
  have b0: "blockPower (kWeighted two_pulses) [1] 19200 0 = 1931544753100607893848662951829 / 32000000000000000000000000000000000000"
    unfolding kWeighted_two_pulses blockPower_sum
    by (simp add: sumSq_take_drop sum_list_zeros)
  have b1: "blockPower (kWeighted two_pulses) [1] 19200 4800 = 70698250035657430749569813427 / 160000000000000000000000000000000000"
    unfolding kWeighted_two_pulses blockPower_sum
    by (simp add: sumSq_take_drop sum_list_zeros)
  have "blockPowers two_pulses =
      Some [blockPower (kWeighted two_pulses) [1] 19200 0,
            blockPower (kWeighted two_pulses) [1] 19200 4800]"
    using blockPowers_eq [of two_pulses] unfolding sr js_round_blockSamples channelWeight_mono
    by simp
  then show ?thesis unfolding b0 b1 .
qed

lemma samplePeak_two_pulses: "samplePeak two_pulses = 0.06"
  by (simp add: samplePeak_def two_pulses_def numberOfChannels_def getChannelData_def peak_fold_zeros)

lemma kWeighted_faint_pulse:
  "kWeighted faint_pulse =
     [[0.00460537457876091, - 0.01728583772574096, 0.02435073014775774,
       - 0.01526544543333624, 0.00359517843255855] @ replicate 19195 0]"
  by (simp add: kWeighted_def faint_pulse_def numberOfChannels_def getChannelData_def
      getKWeightCoeffs_def K_WEIGHTS_48000_def applyBiquad_def Let_def biquad_zeros_only
      cong: let_weak_cong)

lemma blockPowers_faint_pulse:
  "blockPowers faint_pulse =
     Some [1931544753100607893848662951829 / 32000000000000000000000000000000000000]"
proof -
  have sr: "sampleRate faint_pulse = 48000" "buf_length faint_pulse = 19200"
    "numberOfChannels faint_pulse = 1"
    by (simp_all add: faint_pulse_def numberOfChannels_def)
  have b0: "blockPower (kWeighted faint_pulse) [1] 19200 0
      = 1931544753100607893848662951829 / 32000000000000000000000000000000000000"
    unfolding kWeighted_faint_pulse blockPower_sum
    by (simp add: sumSq_take_drop sum_list_zeros)
  have "blockPowers faint_pulse = Some [blockPower (kWeighted faint_pulse) [1] 19200 0]"
    using blockPowers_eq [of faint_pulse] unfolding sr js_round_blockSamples channelWeight_mono
    by simp
  then show ?thesis unfolding b0 .
qed

lemma samplePeak_faint_pulse: "samplePeak faint_pulse = 0.0152611357439133918462372188754"
  by (simp add: samplePeak_def faint_pulse_def numberOfChannels_def getChannelData_def peak_fold_zeros)

lemma kWeighted_silent_tail:
  "kWeighted silent_tail = [replicate 19200 0 @ [0.767562429793485]]"
  by (simp add: kWeighted_def silent_tail_def numberOfChannels_def getChannelData_def
      getKWeightCoeffs_def K_WEIGHTS_48000_def applyBiquad_def Let_def biquad_zeros
      cong: let_weak_cong)

lemma blockPowers_silent_tail: "blockPowers silent_tail = Some [0]"
proof -
  have sr: "sampleRate silent_tail = 48000" "buf_length silent_tail = 19201"
    "numberOfChannels silent_tail = 1"
    by (simp_all add: silent_tail_def numberOfChannels_def)
  have b0: "blockPower (kWeighted silent_tail) [1] 19200 0 = 0"
    unfolding kWeighted_silent_tail blockPower_sum
    by (simp add: sumSq_take_drop sum_list_zeros)
  have "blockPowers silent_tail = Some [blockPower (kWeighted silent_tail) [1] 19200 0]"
    using blockPowers_eq [of silent_tail] unfolding sr js_round_blockSamples channelWeight_mono
    by simp
  then show ?thesis unfolding b0 .
qed


lemma gatedLoudness_pair:
  assumes "\<not> absThreshold < b0" and "absThreshold < b1" and "b1 / 10 < b0"
  shows "gatedLoudness [b0, b1] pk
     = \<lparr>lufs = Fin (- 0.691 + 10 * log 10 ((b0 + b1) / 2)), peak = pk\<rparr>"
proof -
  have pos: "0 < b1" using assms(2) absThreshold_pos by linarith
  have rel: "10 powr ((- 0.691 + 10 * log 10 b1 + RELATIVE_GATE + 0.691) / 10) = b1 / 10"
    by (rule rel_threshold [OF pos])
  have keep: "b1 / 10 < b1" using pos by simp
  have u: "filter (\<lambda>p. p > absThreshold) [b0, b1] = [b1]"
    using assms(1,2) by simp
  have m1: "foldl (\<lambda>s p. s + p) 0 [b1] / real (length [b1]) = b1" by simp
  have g: "filter (\<lambda>p. p > 10 powr ((- 0.691 + 10 * log 10 b1 + RELATIVE_GATE + 0.691) / 10))
      [b0, b1] = [b0, b1]"
    unfolding rel using assms(3) keep by simp
  have m2: "foldl (\<lambda>s p. s + p) 0 [b0, b1] / real (length [b0, b1]) = (b0 + b1) / 2" by simp
  show ?thesis
    unfolding gatedLoudness_def Let_def u m1 g m2 by simp
qed

lemma measureLUFS_two_pulses:
  "measureLUFS two_pulses =
     Some \<lparr>lufs = Fin (- 0.691 + 10 * log 10
              ((1931544753100607893848662951829 / 32000000000000000000000000000000000000
                + 70698250035657430749569813427 / 160000000000000000000000000000000000) / 2)),
           peak = 0.06\<rparr>"
proof -
  have "gatedLoudness
      [1931544753100607893848662951829 / 32000000000000000000000000000000000000,
       70698250035657430749569813427 / 160000000000000000000000000000000000] 0.06
     = \<lparr>lufs = Fin (- 0.691 + 10 * log 10
              ((1931544753100607893848662951829 / 32000000000000000000000000000000000000
                + 70698250035657430749569813427 / 160000000000000000000000000000000000) / 2)),
           peak = 0.06\<rparr>"
    using absThreshold_lower absThreshold_upper by (intro gatedLoudness_pair) simp_all
  then show ?thesis
    by (simp add: measureLUFS_def blockPowers_two_pulses samplePeak_two_pulses)
qed

subsection \<open>The gate on JavaScript numbers and the gate on reals\<close>

lemma sum_list_positive:
  "xs \<noteq> [] \<Longrightarrow> \<forall>x\<in>set xs. 0 < x \<Longrightarrow> 0 < sum_list (xs :: real list)"
proof (induction xs)
  case Nil
  then show ?case by simp
next
  case (Cons x xs)
  then show ?case by (cases "xs = []") (auto intro: add_pos_pos)
qed

lemma filter_js_gt_Num:
  "filter (\<lambda>p. js_gt p (Num t)) (map Num bs) = map Num (filter (\<lambda>p. p > t) bs)"
  by (induction bs) simp_all

lemma foldl_js_add_Num:
  "foldl (\<lambda>s p. js_add s p) (Num a) (map Num xs) = Num (a + sum_list xs)"
  by (induction xs arbitrary: a) simp_all

lemma js_lufs_of_mean:
  assumes "xs \<noteq> []" and "\<forall>x\<in>set xs. 0 < x"
  shows "js_add (Num (- 0.691))
           (js_mul (Num 10)
              (js_log10 (js_div (foldl (\<lambda>s p. js_add s p) (Num 0) (map Num xs))
                           (Num (real (length (map Num xs)))))))
         = Num (- 0.691 + 10 * log 10 (sum_list xs / real (length xs)))"
proof -
  have "0 < sum_list xs" using assms by (rule sum_list_positive)
  then have "0 < sum_list xs / real (length xs)" using assms(1) by simp
  then show ?thesis using assms(1) by (simp add: foldl_js_add_Num)
qed

lemma gate_js_finite: "gate_js (map Num bs) pk = to_js (gatedLoudness bs pk)"
proof (cases "filter (\<lambda>p. p > absThreshold) bs = []")
  case True
  then show ?thesis
    by (simp add: gate_js_def gatedLoudness_def to_js_def Let_def filter_js_gt_Num
        absThreshold_def)
next
  case False
  let ?u = "filter (\<lambda>p. p > absThreshold) bs"
  define uL where "uL = - 0.691 + 10 * log 10 (sum_list ?u / real (length ?u))"
  let ?g = "filter (\<lambda>p. p > 10 powr ((uL + RELATIVE_GATE + 0.691) / 10)) bs"
  have ne: "bs \<noteq> []" using False by auto
  have upos: "\<forall>x\<in>set ?u. 0 < x" using absThreshold_pos by auto
  have thr: "js_pow10 (js_div (js_add (Num ABSOLUTE_GATE) (Num 0.691)) (Num 10)) = Num absThreshold"
    by (simp add: absThreshold_def)
  have mean_u: "js_add (Num (- 0.691))
           (js_mul (Num 10)
              (js_log10 (js_div (foldl (\<lambda>s p. js_add s p) (Num 0) (map Num ?u))
                           (Num (real (length (map Num ?u))))))) = Num uL"
    unfolding uL_def using False upos by (rule js_lufs_of_mean)
  have rel: "js_pow10 (js_div (js_add (js_add (Num uL) (Num RELATIVE_GATE)) (Num 0.691)) (Num 10))
      = Num (10 powr ((uL + RELATIVE_GATE + 0.691) / 10))"
    by simp
  have gpos: "\<forall>x\<in>set ?g. 0 < x"
  proof
    fix x assume "x \<in> set ?g"
    then have "10 powr ((uL + RELATIVE_GATE + 0.691) / 10) < x" by simp
    moreover have "(0::real) < 10 powr ((uL + RELATIVE_GATE + 0.691) / 10)" by simp
    ultimately show "0 < x" by linarith
  qed
  have js: "gate_js (map Num bs) pk =
      (if ?g = [] then \<lparr>js_lufs = Num uL, js_peak = 0\<rparr>
       else \<lparr>js_lufs = Num (- 0.691 + 10 * log 10 (sum_list ?g / real (length ?g))),
              js_peak = pk\<rparr>)"
  proof (cases "?g = []")
    case True
    then show ?thesis
      unfolding gate_js_def Let_def thr filter_js_gt_Num mean_u rel
      using ne False by simp
  next
    case g: False
    have mean_g: "js_add (Num (- 0.691))
           (js_mul (Num 10)
              (js_log10 (js_div (foldl (\<lambda>s p. js_add s p) (Num 0) (map Num ?g))
                           (Num (real (length (map Num ?g)))))))
        = Num (- 0.691 + 10 * log 10 (sum_list ?g / real (length ?g)))"
      using g gpos by (rule js_lufs_of_mean)
    show ?thesis
      unfolding gate_js_def Let_def thr filter_js_gt_Num mean_u rel mean_g
      using ne False g by simp
  qed
  have re: "gatedLoudness bs pk =
      (if ?g = [] then \<lparr>lufs = Fin uL, peak = 0\<rparr>
       else \<lparr>lufs = Fin (- 0.691 + 10 * log 10 (sum_list ?g / real (length ?g))),
              peak = pk\<rparr>)"
    using ne False by (simp add: gatedLoudness_def Let_def foldl_add_sum_list uL_def)
  show ?thesis unfolding js re by (simp add: to_js_def)
qed

lemma measureLUFS_to_js:
  assumes "blockPowers buf = Some bs"
  shows "map_option to_js (measureLUFS buf) = Some (gate_js (map Num bs) (samplePeak buf))"
  by (simp add: measureLUFS_def assms gate_js_finite)

lemma abs_gate_literal: "10 powr ((- 70 + 0.691) / 10) = absThreshold"
  by (simp add: absThreshold_def ABSOLUTE_GATE_def)


text \<open>
  When the relative gate leaves nothing: exactly when a block power is infinite, and then
  the loudness is \<open>+Infinity\<close>.
\<close>

lemma above_gate_cases:
  "js_gt p (Num t) \<Longrightarrow> p = PInf \<or> (\<exists>r. p = Num r \<and> t < r)"
  by (cases p) simp_all

lemma foldl_js_add_overflow:
  assumes "\<forall>p\<in>set xs. p = PInf \<or> (\<exists>r. p = Num r)"
    and "acc = PInf \<or> (\<exists>a. acc = Num a)"
    and "acc = PInf \<or> PInf \<in> set xs"
  shows "foldl (\<lambda>s p. js_add s p) acc xs = PInf"
  using assms
proof (induction xs arbitrary: acc)
  case Nil
  then show ?case by simp
next
  case (Cons x xs)
  have x: "x = PInf \<or> (\<exists>r. x = Num r)" using Cons.prems(1) by simp
  have step: "js_add acc x = PInf \<or> (\<exists>a. js_add acc x = Num a)"
    using x Cons.prems(2) by auto
  have inf: "js_add acc x = PInf \<or> PInf \<in> set xs"
    using x Cons.prems(2,3) by auto
  have "foldl (\<lambda>s p. js_add s p) (js_add acc x) xs = PInf"
    using Cons.prems(1) step inf by (intro Cons.IH) simp_all
  then show ?case by simp
qed

lemma gate_js_overflow:
  assumes "PInf \<in> set blocks"
  shows "gate_js blocks pk = \<lparr>js_lufs = PInf, js_peak = 0\<rparr>"
proof -
  let ?u = "filter (\<lambda>p. js_gt p (Num absThreshold)) blocks"
  have thr: "js_pow10 (js_div (js_add (Num ABSOLUTE_GATE) (Num 0.691)) (Num 10)) = Num absThreshold"
    by (simp add: absThreshold_def)
  have mem: "PInf \<in> set ?u" using assms by simp
  then have ne1: "?u \<noteq> []" by (metis empty_iff empty_set)
  have ne2: "blocks \<noteq> []" using assms by auto
  note ne = ne1 ne2
  have shape: "\<forall>p\<in>set ?u. p = PInf \<or> (\<exists>r. p = Num r)"
    using above_gate_cases by auto
  have sum: "foldl (\<lambda>s p. js_add s p) (Num 0) ?u = PInf"
    using shape mem by (intro foldl_js_add_overflow) simp_all
  have none: "filter (\<lambda>p. js_gt p PInf) blocks = []"
  proof -
    have "\<not> js_gt p PInf" for p by (cases p) simp_all
    then show ?thesis by simp
  qed
  show ?thesis
    unfolding gate_js_def Let_def thr sum using ne none by simp
qed

lemma finite_powers:
  assumes "PInf \<notin> set blocks"
  shows "\<exists>rs. \<forall>t. filter (\<lambda>p. js_gt p (Num t)) blocks = map Num (filter (\<lambda>r. r > t) rs)"
  using assms
proof (induction blocks)
  case Nil
  have "\<forall>t. filter (\<lambda>p. js_gt p (Num t)) [] = map Num (filter (\<lambda>r. r > t) [])" by simp
  then show ?case by blast
next
  case (Cons p ps)
  then obtain rs where rs:
    "\<forall>t. filter (\<lambda>p. js_gt p (Num t)) ps = map Num (filter (\<lambda>r. r > t) rs)"
    by auto
  show ?case
  proof (cases p)
    case (Num r)
    have "\<forall>t. filter (\<lambda>p. js_gt p (Num t)) (p # ps) = map Num (filter (\<lambda>r. r > t) (r # rs))"
      using rs Num by simp
    then show ?thesis by blast
  next
    case PInf
    then show ?thesis using Cons.prems by simp
  next
    case MInf
    then have "\<forall>t. filter (\<lambda>p. js_gt p (Num t)) (p # ps) = map Num (filter (\<lambda>r. r > t) rs)"
      using rs by simp
    then show ?thesis by blast
  next
    case NaN
    then have "\<forall>t. filter (\<lambda>p. js_gt p (Num t)) (p # ps) = map Num (filter (\<lambda>r. r > t) rs)"
      using rs by simp
    then show ?thesis by blast
  qed
qed

lemma gate_js_relative_gate_empty:
  assumes "PInf \<notin> set blocks"
    and "filter (\<lambda>p. js_gt p (Num absThreshold)) blocks \<noteq> []"
  shows "filter (\<lambda>p. js_gt p
           (js_pow10 (js_div (js_add (js_add
              (js_add (Num (- 0.691))
                 (js_mul (Num 10)
                    (js_log10 (js_div
                       (foldl (\<lambda>s p. js_add s p) (Num 0)
                          (filter (\<lambda>p. js_gt p (Num absThreshold)) blocks))
                       (Num (real (length (filter (\<lambda>p. js_gt p (Num absThreshold)) blocks))))))))
              (Num RELATIVE_GATE)) (Num 0.691)) (Num 10)))) blocks \<noteq> []"
proof -
  obtain rs where rs:
    "\<forall>t. filter (\<lambda>p. js_gt p (Num t)) blocks = map Num (filter (\<lambda>r. r > t) rs)"
    using finite_powers [OF assms(1)] by blast
  let ?u = "filter (\<lambda>r. r > absThreshold) rs"
  have u: "filter (\<lambda>p. js_gt p (Num absThreshold)) blocks = map Num ?u" using rs by blast
  have ne: "?u \<noteq> []" using assms(2) u by simp
  have upos: "\<forall>x\<in>set ?u. 0 < x" using absThreshold_pos by auto
  define m where "m = sum_list ?u / real (length ?u)"
  have mpos: "0 < m"
    unfolding m_def using sum_list_positive [OF ne upos] ne by simp
  have l: "js_add (Num (- 0.691))
           (js_mul (Num 10)
              (js_log10 (js_div (foldl (\<lambda>s p. js_add s p) (Num 0) (map Num ?u))
                           (Num (real (length (map Num ?u)))))))
         = Num (- 0.691 + 10 * log 10 m)"
    unfolding m_def using ne upos by (rule js_lufs_of_mean)
  have r: "js_pow10 (js_div (js_add (js_add (Num (- 0.691 + 10 * log 10 m)) (Num RELATIVE_GATE))
              (Num 0.691)) (Num 10)) = Num (m / 10)"
    using rel_threshold [OF mpos] by simp
  have "filter (\<lambda>r. r > m / 10) rs \<noteq> []"
    using relative_gate_keeps_a_block [of rs] ne unfolding m_def by simp
  then have "filter (\<lambda>p. js_gt p (Num (m / 10))) blocks \<noteq> []" using rs by simp
  then show ?thesis unfolding u l r .
qed

subsection \<open>Measurement\<close>

text \<open>
  C9. Blocks have round(0.4 * sampleRate) samples and start every round(25% of that)
  samples; there is one power value, the channel-weighted mean square, for each start at
  which a full block fits (for sample rates from 4 Hz on, where the step is not zero); a
  buffer shorter than one block has no blocks and measures as silence.
\<close>

theorem block_sequence:
  "(4 \<le> sampleRate buf \<longrightarrow>
      (\<forall>k. k < (if blockSamples (sampleRate buf) \<le> buf_length buf
                 then (buf_length buf - blockSamples (sampleRate buf))
                        div stepSamples (sampleRate buf) + 1
                 else 0)
          \<longleftrightarrow> k * stepSamples (sampleRate buf) + blockSamples (sampleRate buf) \<le> buf_length buf)
      \<and> blockPowers buf =
          Some (map (\<lambda>k. spec_blockPower (kWeighted buf) (k * stepSamples (sampleRate buf))
                            (blockSamples (sampleRate buf)))
                 [0..<(if blockSamples (sampleRate buf) \<le> buf_length buf
                       then (buf_length buf - blockSamples (sampleRate buf))
                              div stepSamples (sampleRate buf) + 1
                       else 0)]))
   \<and> blockSamples (sampleRate buf) = nat (round (0.4 * real (sampleRate buf)))
   \<and> stepSamples (sampleRate buf) = nat (round (0.25 * real (blockSamples (sampleRate buf))))
   \<and> (buf_length buf < blockSamples (sampleRate buf) \<longrightarrow>
        blockPowers buf = Some [] \<and> measureLUFS buf = Some \<lparr>lufs = NegInf, peak = 0\<rparr>)"
proof (intro conjI impI allI)
  fix k
  assume "4 \<le> sampleRate buf"
  then show "k < (if blockSamples (sampleRate buf) \<le> buf_length buf
                 then (buf_length buf - blockSamples (sampleRate buf))
                        div stepSamples (sampleRate buf) + 1
                 else 0)
          \<longleftrightarrow> k * stepSamples (sampleRate buf) + blockSamples (sampleRate buf) \<le> buf_length buf"
    by (intro block_count stepSamples_pos)
next
  assume "4 \<le> sampleRate buf"
  then show "blockPowers buf =
          Some (map (\<lambda>k. spec_blockPower (kWeighted buf) (k * stepSamples (sampleRate buf))
                            (blockSamples (sampleRate buf)))
                 [0..<(if blockSamples (sampleRate buf) \<le> buf_length buf
                       then (buf_length buf - blockSamples (sampleRate buf))
                              div stepSamples (sampleRate buf) + 1
                       else 0)])"
    using blockPowers_eq [of buf] blockPower_spec [of "kWeighted buf"]
    by (simp add: kWeighted_length)
next
  show "blockSamples (sampleRate buf) = nat (round (0.4 * real (sampleRate buf)))"
    by (simp add: blockSamples_def js_round_def round_def BLOCK_DURATION_def)
next
  show "stepSamples (sampleRate buf) = nat (round (0.25 * real (blockSamples (sampleRate buf))))"
    by (simp add: stepSamples_def js_round_def round_def BLOCK_OVERLAP_def)
next
  assume "buf_length buf < blockSamples (sampleRate buf)"
  then show "blockPowers buf = Some []" by (rule blockPowers_short)
next
  assume "buf_length buf < blockSamples (sampleRate buf)"
  then show "measureLUFS buf = Some \<lparr>lufs = NegInf, peak = 0\<rparr>"
    by (simp add: measureLUFS_def blockPowers_short gatedLoudness_def)
qed

theorem block_sequence_witness:
  "4 \<le> sampleRate two_pulses
   \<and> blockPowers two_pulses =
       Some [spec_blockPower (kWeighted two_pulses) 0 19200,
             spec_blockPower (kWeighted two_pulses) 4800 19200]
   \<and> buf_length short_clip < blockSamples (sampleRate short_clip)
   \<and> blockPowers short_clip = Some []
   \<and> measureLUFS short_clip = Some \<lparr>lufs = NegInf, peak = 0\<rparr>"
proof -
  have a: "4 \<le> sampleRate two_pulses" by (simp add: two_pulses_def)
  have sr: "sampleRate two_pulses = 48000" "buf_length two_pulses = 24000"
    by (simp_all add: two_pulses_def)
  have b: "buf_length short_clip < blockSamples (sampleRate short_clip)"
    by (simp add: short_clip_def js_round_blockSamples)
  have "blockPowers two_pulses =
       Some [spec_blockPower (kWeighted two_pulses) 0 19200,
             spec_blockPower (kWeighted two_pulses) 4800 19200]"
    using block_sequence [of two_pulses] a unfolding sr js_round_blockSamples by simp
  moreover have "blockPowers short_clip = Some []
      \<and> measureLUFS short_clip = Some \<lparr>lufs = NegInf, peak = 0\<rparr>"
    using block_sequence [of short_clip] b by blast
  ultimately show ?thesis using a b by blast
qed


text \<open>
  C5. In the gate, the relative threshold is 10 to the power of
  (ungatedLUFS - 10 + 0.691) / 10, with ungatedLUFS taken from the mean of the blocks above
  the absolute gate; the relative gate filters the whole block sequence, not the
  survivors of the absolute gate; if it leaves nothing the result is lufs = ungatedLUFS
  with peak 0. Stated for the gate on JavaScript numbers; by the last part this is the gate
  that \<open>measureLUFS\<close> applies to its block powers.
\<close>

theorem gate_js_stages:
  "(let ungated = filter (\<lambda>p. js_gt p (Num (10 powr ((- 70 + 0.691) / 10)))) blocks;
        ungatedLUFS =
          js_add (Num (- 0.691))
            (js_mul (Num 10)
               (js_log10 (js_div (foldl (\<lambda>s p. js_add s p) (Num 0) ungated)
                            (Num (real (length ungated))))));
        relThreshold =
          js_pow10 (js_div (js_add (js_add ungatedLUFS (Num (- 10))) (Num 0.691)) (Num 10));
        gated = filter (\<lambda>p. js_gt p relThreshold) blocks
    in (ungated = [] \<longrightarrow> gate_js blocks pk = \<lparr>js_lufs = MInf, js_peak = 0\<rparr>)
       \<and> (ungated \<noteq> [] \<and> gated = [] \<longrightarrow>
            gate_js blocks pk = \<lparr>js_lufs = ungatedLUFS, js_peak = 0\<rparr>)
       \<and> (ungated \<noteq> [] \<and> gated \<noteq> [] \<longrightarrow>
            gate_js blocks pk =
              \<lparr>js_lufs =
                 js_add (Num (- 0.691))
                   (js_mul (Num 10)
                      (js_log10 (js_div (foldl (\<lambda>s p. js_add s p) (Num 0) gated)
                                   (Num (real (length gated)))))),
               js_peak = pk\<rparr>)
       \<and> (\<forall>l. ungatedLUFS = Num l \<longrightarrow>
              relThreshold = Num (10 powr ((l - 10 + 0.691) / 10))))
   \<and> (blockPowers buf = Some bs \<longrightarrow>
        map_option to_js (measureLUFS buf) = Some (gate_js (map Num bs) (samplePeak buf)))"
proof -
  have thr: "js_pow10 (js_div (js_add (Num ABSOLUTE_GATE) (Num 0.691)) (Num 10))
      = Num (10 powr ((- 70 + 0.691) / 10))"
    by (simp add: ABSOLUTE_GATE_def)
  have rg: "Num RELATIVE_GATE = Num (- 10)" by (simp add: RELATIVE_GATE_def)
  define ungated where
    "ungated = filter (\<lambda>p. js_gt p (Num (10 powr ((- 70 + 0.691) / 10)))) blocks"
  define ungatedLUFS where
    "ungatedLUFS = js_add (Num (- 0.691))
            (js_mul (Num 10)
               (js_log10 (js_div (foldl (\<lambda>s p. js_add s p) (Num 0) ungated)
                            (Num (real (length ungated))))))"
  define relThreshold where
    "relThreshold =
       js_pow10 (js_div (js_add (js_add ungatedLUFS (Num (- 10))) (Num 0.691)) (Num 10))"
  define gated where "gated = filter (\<lambda>p. js_gt p relThreshold) blocks"
  have g: "gate_js blocks pk =
      (if ungated = [] then \<lparr>js_lufs = MInf, js_peak = 0\<rparr>
       else if gated = [] then \<lparr>js_lufs = ungatedLUFS, js_peak = 0\<rparr>
       else \<lparr>js_lufs =
                 js_add (Num (- 0.691))
                   (js_mul (Num 10)
                      (js_log10 (js_div (foldl (\<lambda>s p. js_add s p) (Num 0) gated)
                                   (Num (real (length gated)))))),
               js_peak = pk\<rparr>)"
    unfolding gate_js_def Let_def thr rg
    unfolding ungated_def [symmetric] ungatedLUFS_def [symmetric] relThreshold_def [symmetric]
      gated_def [symmetric]
    by (cases "blocks = []") (simp_all add: ungated_def)
  have a: "ungated = [] \<longrightarrow> gate_js blocks pk = \<lparr>js_lufs = MInf, js_peak = 0\<rparr>"
    using g by simp
  have b: "ungated \<noteq> [] \<and> gated = [] \<longrightarrow>
      gate_js blocks pk = \<lparr>js_lufs = ungatedLUFS, js_peak = 0\<rparr>"
    using g by simp
  have c: "ungated \<noteq> [] \<and> gated \<noteq> [] \<longrightarrow>
            gate_js blocks pk =
              \<lparr>js_lufs =
                 js_add (Num (- 0.691))
                   (js_mul (Num 10)
                      (js_log10 (js_div (foldl (\<lambda>s p. js_add s p) (Num 0) gated)
                                   (Num (real (length gated)))))),
               js_peak = pk\<rparr>"
    using g by simp
  have d: "\<forall>l. ungatedLUFS = Num l \<longrightarrow> relThreshold = Num (10 powr ((l - 10 + 0.691) / 10))"
    by (simp add: relThreshold_def)
  have e: "blockPowers buf = Some bs \<longrightarrow>
        map_option to_js (measureLUFS buf) = Some (gate_js (map Num bs) (samplePeak buf))"
    using measureLUFS_to_js by blast
  show ?thesis
    unfolding Let_def
    unfolding ungated_def [symmetric] ungatedLUFS_def [symmetric] relThreshold_def [symmetric]
      gated_def [symmetric]
    using a b c d e by blast
qed

text \<open>
  Three inputs: nothing above the absolute gate; an infinite block power, after which
  nothing is above the relative threshold; and the two blocks of \<open>two_pulses\<close>, where
  the first block is below the absolute gate and above the relative one, so it is left
  out of the ungated mean and counted in the final one.
\<close>

theorem gate_js_stages_witness:
  "gate_js [Num 0, NaN] 1 = \<lparr>js_lufs = MInf, js_peak = 0\<rparr>
   \<and> gate_js [Num (1 / 2), PInf, NaN] 1 = \<lparr>js_lufs = PInf, js_peak = 0\<rparr>
   \<and> blockPowers two_pulses =
       Some [1931544753100607893848662951829 / 32000000000000000000000000000000000000,
             70698250035657430749569813427 / 160000000000000000000000000000000000]
   \<and> gate_js
        [Num (1931544753100607893848662951829 / 32000000000000000000000000000000000000),
         Num (70698250035657430749569813427 / 160000000000000000000000000000000000)] 0.06
       = \<lparr>js_lufs = Num (- 0.691 + 10 * log 10
              ((1931544753100607893848662951829 / 32000000000000000000000000000000000000
                + 70698250035657430749569813427 / 160000000000000000000000000000000000) / 2)),
          js_peak = 0.06\<rparr>
   \<and> map_option to_js (measureLUFS two_pulses)
       = Some \<lparr>js_lufs = Num (- 0.691 + 10 * log 10
              ((1931544753100607893848662951829 / 32000000000000000000000000000000000000
                + 70698250035657430749569813427 / 160000000000000000000000000000000000) / 2)),
          js_peak = 0.06\<rparr>"
proof -
  define B0 :: real where
    "B0 = 1931544753100607893848662951829 / 32000000000000000000000000000000000000"
  define B1 :: real where
    "B1 = 70698250035657430749569813427 / 160000000000000000000000000000000000"
  have lo: "\<not> absThreshold < B0"
    using absThreshold_lower unfolding B0_def by simp
  have hi: "absThreshold < B1"
    using absThreshold_upper unfolding B1_def by simp
  have half: "absThreshold < 1 / 2" "\<not> absThreshold < 0"
    using absThreshold_upper absThreshold_pos by simp_all
  have pos: "0 < B1" "0 < (B0 + B1) / 2" unfolding B0_def B1_def by simp_all
  have keep: "B1 / 10 < B0" "B1 / 10 < B1" unfolding B0_def B1_def by simp_all
  have s1: "gate_js [Num 0, NaN] 1 = \<lparr>js_lufs = MInf, js_peak = 0\<rparr>"
  proof -
    have u: "filter (\<lambda>p. js_gt p (Num absThreshold)) [Num 0, NaN] = []"
      using half by simp
    from gate_js_stages [of "[Num 0, NaN]" 1, unfolded Let_def abs_gate_literal u]
    show ?thesis by simp
  qed
  have s2: "gate_js [Num (1 / 2), PInf, NaN] 1 = \<lparr>js_lufs = PInf, js_peak = 0\<rparr>"
  proof -
    have u: "filter (\<lambda>p. js_gt p (Num absThreshold)) [Num (1 / 2), PInf, NaN]
        = [Num (1 / 2), PInf]"
      using half by simp
    from gate_js_stages [of "[Num (1 / 2), PInf, NaN]" 1, unfolded Let_def abs_gate_literal u]
    show ?thesis by simp
  qed
  have bp: "blockPowers two_pulses = Some [B0, B1]"
    unfolding B0_def B1_def by (rule blockPowers_two_pulses)
  have s3: "gate_js [Num B0, Num B1] 0.06
      = \<lparr>js_lufs = Num (- 0.691 + 10 * log 10 ((B0 + B1) / 2)), js_peak = 0.06\<rparr>"
  proof -
    have u: "filter (\<lambda>p. js_gt p (Num absThreshold)) [Num B0, Num B1] = [Num B1]"
      using lo hi by simp
    have l: "js_add (Num (- 0.691))
            (js_mul (Num 10)
               (js_log10 (js_div (foldl (\<lambda>s p. js_add s p) (Num 0) [Num B1])
                            (Num (real (length [Num B1]))))))
        = Num (- 0.691 + 10 * log 10 B1)"
      using pos(1) by simp
    have r: "js_pow10 (js_div (js_add (js_add (Num (- 0.691 + 10 * log 10 B1)) (Num (- 10)))
                (Num 0.691)) (Num 10)) = Num (B1 / 10)"
      using rel_threshold [OF pos(1)] by (simp add: RELATIVE_GATE_def)
    have g: "filter (\<lambda>p. js_gt p (Num (B1 / 10))) [Num B0, Num B1] = [Num B0, Num B1]"
      using keep by simp
    have m: "js_add (Num (- 0.691))
            (js_mul (Num 10)
               (js_log10 (js_div (foldl (\<lambda>s p. js_add s p) (Num 0) [Num B0, Num B1])
                            (Num (real (length [Num B0, Num B1]))))))
        = Num (- 0.691 + 10 * log 10 ((B0 + B1) / 2))"
      using pos(2) by simp
    from gate_js_stages [of "[Num B0, Num B1]" "0.06", unfolded Let_def abs_gate_literal u l r g m]
    show ?thesis by simp
  qed
  have s4: "map_option to_js (measureLUFS two_pulses)
      = Some \<lparr>js_lufs = Num (- 0.691 + 10 * log 10 ((B0 + B1) / 2)), js_peak = 0.06\<rparr>"
    using gate_js_stages [of "[]" 0 two_pulses "[B0, B1]"] bp s3
    by (simp add: samplePeak_two_pulses)
  show ?thesis
    using s1 s2 bp s3 s4 unfolding B0_def B1_def by blast
qed

text \<open>
  On finite block powers the relative gate always keeps a block when the absolute gate
  did: the largest survivor is at least the survivors' mean, hence above a tenth of it.
\<close>

lemma relative_gate_never_empty:
  assumes "filter (\<lambda>p. p > absThreshold) blocks \<noteq> []"
  shows "filter (\<lambda>p. p > 10 powr ((- 0.691 + 10 * log 10
            (foldl (\<lambda>s p. s + p) 0 (filter (\<lambda>p. p > absThreshold) blocks)
               / real (length (filter (\<lambda>p. p > absThreshold) blocks)))
            + RELATIVE_GATE + 0.691) / 10)) blocks \<noteq> []"
proof -
  let ?u = "filter (\<lambda>p. p > absThreshold) blocks"
  have "\<forall>x\<in>set ?u. 0 < x" using absThreshold_pos by auto
  with assms have "0 < sum_list ?u" by (rule sum_list_positive)
  then have "0 < sum_list ?u / real (length ?u)" using assms by simp
  from rel_threshold [OF this] relative_gate_keeps_a_block [OF assms]
  show ?thesis by (simp add: foldl_add_sum_list)
qed

text \<open>
  C2, as stated: below the absolute gate the measurement reports the real sample peak.
  \<open>faint_pulse\<close> has one block, below the gate, and a sample peak of about 0.015; the
  measurement reports peak 0.
\<close>

theorem measureLUFS_silence_peak_dropped:
  "blockPowers faint_pulse =
     Some [1931544753100607893848662951829 / 32000000000000000000000000000000000000]
   \<and> 1931544753100607893848662951829 / 32000000000000000000000000000000000000
       \<le> (10::real) powr ((- 70 + 0.691) / 10)
   \<and> measureLUFS faint_pulse = Some \<lparr>lufs = NegInf, peak = 0\<rparr>
   \<and> samplePeak faint_pulse = 0.0152611357439133918462372188754
   \<and> Max (abs ` set (concat (channelData faint_pulse))) = 0.0152611357439133918462372188754
   \<and> measureLUFS faint_pulse \<noteq> Some \<lparr>lufs = NegInf, peak = samplePeak faint_pulse\<rparr>"
proof -
  have t: "10 powr ((- 70 + 0.691) / 10) = absThreshold"
    by (simp add: absThreshold_def ABSOLUTE_GATE_def)
  have le: "1931544753100607893848662951829 / 32000000000000000000000000000000000000
       \<le> (10::real) powr ((- 70 + 0.691) / 10)"
    unfolding t using absThreshold_lower by simp
  have "filter (\<lambda>p. p > absThreshold)
      [1931544753100607893848662951829 / 32000000000000000000000000000000000000] = []"
    using le unfolding t by simp
  then have m: "measureLUFS faint_pulse = Some \<lparr>lufs = NegInf, peak = 0\<rparr>"
    by (simp add: measureLUFS_def blockPowers_faint_pulse gatedLoudness_def)
  have "set (concat (channelData faint_pulse)) =
      {0.003, - 0.01104212024404917, 0.0152611357439133918462372188754,
          - 0.0093946390543401903717157948473, 0.0021756266654336111384642592855, 0}"
    by (auto simp: faint_pulse_def)
  then have mx: "Max (abs ` set (concat (channelData faint_pulse))) = 0.0152611357439133918462372188754"
    by simp
  have ne: "measureLUFS faint_pulse \<noteq> Some \<lparr>lufs = NegInf, peak = samplePeak faint_pulse\<rparr>"
    unfolding m samplePeak_faint_pulse by simp
  show ?thesis
    using blockPowers_faint_pulse le m samplePeak_faint_pulse mx ne by blast
qed

text \<open>
  C2, amended: when every block power is at or below the absolute gate threshold the
  measurement is lufs = -infinity with peak = 0, whatever the samples are.
\<close>

theorem measureLUFS_below_gate:
  assumes "blockPowers buf = Some blocks"
    and "\<forall>p\<in>set blocks. p \<le> 10 powr ((- 70 + 0.691) / 10)"
  shows "measureLUFS buf = Some \<lparr>lufs = NegInf, peak = 0\<rparr>"
proof -
  have t: "10 powr ((- 70 + 0.691) / 10) = absThreshold"
    by (simp add: absThreshold_def ABSOLUTE_GATE_def)
  have "filter (\<lambda>p. p > absThreshold) blocks = []"
    using assms(2) unfolding t by (auto simp: filter_empty_conv)
  then show ?thesis
    by (simp add: measureLUFS_def assms(1) gatedLoudness_def)
qed


theorem measureLUFS_below_gate_witness:
  "blockPowers silent_tail = Some [0]
   \<and> (0::real) \<le> 10 powr ((- 70 + 0.691) / 10)
   \<and> measureLUFS silent_tail = Some \<lparr>lufs = NegInf, peak = 0\<rparr>
   \<and> samplePeak silent_tail = 1 / 2"
proof -
  have le: "(0::real) \<le> 10 powr ((- 70 + 0.691) / 10)" by simp
  then have "\<forall>p\<in>set [0::real]. p \<le> 10 powr ((- 70 + 0.691) / 10)" by simp
  with blockPowers_silent_tail
  have "measureLUFS silent_tail = Some \<lparr>lufs = NegInf, peak = 0\<rparr>"
    by (rule measureLUFS_below_gate)
  moreover have "samplePeak silent_tail = 1 / 2"
    by (simp add: samplePeak_def silent_tail_def numberOfChannels_def getChannelData_def
        peak_fold_zeros)
  ultimately show ?thesis using blockPowers_silent_tail le by blast
qed


subsection \<open>Gain computation\<close>

lemma log10_floor: "log 10 (1 / 10000000000) = - 10"
proof -
  have "log 10 ((10::real) ^ 10) = real 10" by (rule log_pow_cancel) simp_all
  then have "log 10 (1 / (10::real) ^ 10) = - 10" unfolding log_recip by simp
  then show ?thesis by simp
qed

lemma log10_hundredth: "log 10 (1 / 100) = - 2"
proof -
  have "log 10 ((10::real) ^ 2) = real 2" by (rule log_pow_cancel) simp_all
  then show ?thesis unfolding log_recip by simp
qed

text \<open>The finite-loudness branch of \<open>computeGain\<close>, with the clamp written as a minimum.\<close>

lemma computeGain_Fin:
  "cache s k = Some d \<Longrightarrow> lufs d = Fin l \<Longrightarrow>
   computeGain s k =
     (let g = min (target s - l)
                (PEAK_CEILING - 20 * log 10 (if peak d = 0 then 1 / 10000000000 else peak d))
      in if g > 24 then 1 else 10 powr (g / 20))"
  by (simp add: computeGain_def Let_def min_def)

text \<open>
  C1. For a cached measurement with finite loudness and a peak in [0, 1], and any target,
  the measured peak in dB plus the returned gain in dB stays at or below the peak ceiling
  of -0.5 dBFS.
\<close>

theorem computeGain_peak_ceiling:
  assumes "cache s k = Some m" and "lufs m = Fin l" and "0 \<le> peak m" and "peak m \<le> 1"
  shows "20 * log 10 (max (peak m) (1 / 10000000000)) + 20 * log 10 (computeGain s k)
           \<le> PEAK_CEILING"
proof -
  define pk where "pk = (if peak m = 0 then 1 / 10000000000 else peak m)"
  define pd where "pd = 20 * log 10 pk"
  define cl where "cl = 20 * log 10 (max (peak m) (1 / 10000000000))"
  define g where "g = min (target s - l) (PEAK_CEILING - pd)"
  have cg: "computeGain s k = (if g > 24 then 1 else 10 powr (g / 20))"
    using assms(1,2) by (auto simp: computeGain_def Let_def pk_def pd_def g_def min_def)
  have pkpos: "0 < pk" using assms(3) by (auto simp: pk_def)
  have gle: "g \<le> PEAK_CEILING - pd" by (simp add: g_def)
  show ?thesis
  proof (cases "peak m < 1 / 10000000000")
    case True
    then have cl200: "cl = - 200"
      unfolding cl_def using log10_floor by (simp add: max_def)
    show ?thesis
    proof (cases "g > 24")
      case True
      then show ?thesis
        using cl200 cg unfolding cl_def [symmetric] by (simp add: PEAK_CEILING_def)
    next
      case False
      then have "20 * log 10 (computeGain s k) = g" using cg by simp
      then show ?thesis
        using False cl200 unfolding cl_def [symmetric] by (simp add: PEAK_CEILING_def)
    qed
  next
    case False
    then have "max (peak m) (1 / 10000000000) = pk"
      by (auto simp: pk_def max_def)
    then have clpd: "cl = pd" by (simp add: cl_def pd_def)
    show ?thesis
    proof (cases "g > 24")
      case True
      then have "pd < PEAK_CEILING - 24" using gle by simp
      then show ?thesis
        using cg True clpd unfolding cl_def [symmetric] by (simp add: PEAK_CEILING_def)
    next
      case False
      then have "20 * log 10 (computeGain s k) = g" using cg by simp
      then show ?thesis using gle clpd unfolding cl_def [symmetric] by simp
    qed
  qed
qed

theorem computeGain_peak_ceiling_witness:
  "20 * log 10 (max (1 / 2) (1 / 10000000000))
     + 20 * log 10 (computeGain
         \<lparr>enabled = True, target = - 14, audioCtx = None, gainA = None, gainB = None,
          cache = [''track'' \<mapsto> \<lparr>lufs = Fin (- 20), peak = 1 / 2\<rparr>],
          inflight = Map.empty\<rparr> ''track'')
     \<le> PEAK_CEILING"
  using computeGain_peak_ceiling
    [of "\<lparr>enabled = True, target = - 14, audioCtx = None, gainA = None, gainB = None,
          cache = [''track'' \<mapsto> \<lparr>lufs = Fin (- 20), peak = 1 / 2\<rparr>],
          inflight = Map.empty\<rparr>"
        "''track''" "\<lparr>lufs = Fin (- 20), peak = 1 / 2\<rparr>" "- 20"]
  by simp

text \<open>
  C4. \<open>computeGain\<close> returns exactly 1 when nothing is cached for the identifier, when
  the cached loudness is the silence sentinel, and when the gain in dB left after the
  peak-ceiling clamp exceeds the hard cap of 24 dB.
\<close>

theorem computeGain_unity:
  assumes "cache s k = None
         \<or> (\<exists>d. cache s k = Some d \<and> lufs d = NegInf)
         \<or> (\<exists>d l. cache s k = Some d \<and> lufs d = Fin l
              \<and> min (target s - l)
                    (PEAK_CEILING
                       - 20 * log 10 (if peak d = 0 then 1 / 10000000000 else peak d)) > 24)"
  shows "computeGain s k = 1"
  using assms
proof (elim disjE exE conjE)
  assume "cache s k = None"
  then show ?thesis by (simp add: computeGain_def)
next
  fix d assume "cache s k = Some d" "lufs d = NegInf"
  then show ?thesis by (simp add: computeGain_def)
next
  fix d :: measurement and l :: real
  define g where "g = min (target s - l)
     (PEAK_CEILING - 20 * log 10 (if peak d = 0 then 1 / 10000000000 else peak d))"
  assume "cache s k = Some d" "lufs d = Fin l"
  then have "computeGain s k = (if g > 24 then 1 else 10 powr (g / 20))"
    unfolding g_def by (rule computeGain_Fin [unfolded Let_def])
  moreover assume "24 < min (target s - l)
     (PEAK_CEILING - 20 * log 10 (if peak d = 0 then 1 / 10000000000 else peak d))"
  then have "g > 24" unfolding g_def .
  ultimately show ?thesis by simp
qed

theorem computeGain_unity_witness:
  "computeGain \<lparr>enabled = True, target = - 14, audioCtx = None, gainA = None, gainB = None,
      cache = [''silent'' \<mapsto> \<lparr>lufs = NegInf, peak = 0\<rparr>,
               ''faint'' \<mapsto> \<lparr>lufs = Fin (- 54), peak = 1 / 100\<rparr>],
      inflight = Map.empty\<rparr> ''unknown'' = 1
   \<and> computeGain \<lparr>enabled = True, target = - 14, audioCtx = None, gainA = None, gainB = None,
      cache = [''silent'' \<mapsto> \<lparr>lufs = NegInf, peak = 0\<rparr>,
               ''faint'' \<mapsto> \<lparr>lufs = Fin (- 54), peak = 1 / 100\<rparr>],
      inflight = Map.empty\<rparr> ''silent'' = 1
   \<and> computeGain \<lparr>enabled = True, target = - 14, audioCtx = None, gainA = None, gainB = None,
      cache = [''silent'' \<mapsto> \<lparr>lufs = NegInf, peak = 0\<rparr>,
               ''faint'' \<mapsto> \<lparr>lufs = Fin (- 54), peak = 1 / 100\<rparr>],
      inflight = Map.empty\<rparr> ''faint'' = 1
   \<and> min (- 14 - (- 54)) (PEAK_CEILING - 20 * log 10 (1 / 100)) > (24::real)"
proof -
  let ?s = "\<lparr>enabled = True, target = - 14, audioCtx = None, gainA = None, gainB = None,
      cache = [''silent'' \<mapsto> \<lparr>lufs = NegInf, peak = 0\<rparr>,
               ''faint'' \<mapsto> \<lparr>lufs = Fin (- 54), peak = 1 / 100\<rparr>],
      inflight = Map.empty\<rparr>"
  have cap: "min (- 14 - (- 54)) (PEAK_CEILING - 20 * log 10 (1 / 100)) > (24::real)"
    by (simp add: PEAK_CEILING_def log10_hundredth)
  have a: "computeGain ?s ''unknown'' = 1"
    by (rule computeGain_unity) simp
  have b: "computeGain ?s ''silent'' = 1"
    by (rule computeGain_unity) simp
  have c: "computeGain ?s ''faint'' = 1"
    by (rule computeGain_unity) (use cap in simp)
  show ?thesis using a b c cap by blast
qed

text \<open>
  C3, as stated: with equal peak and target, the quieter measurement never gets the smaller
  gain. The 24 dB hard cap breaks this: a measurement 40 dB below target falls back to
  unity gain while one 20 dB below target is boosted tenfold.
\<close>

theorem computeGain_not_monotone:
  "(- 54::real) \<le> - 34
   \<and> computeGain \<lparr>enabled = True, target = - 14, audioCtx = None, gainA = None, gainB = None,
      cache = [''quiet'' \<mapsto> \<lparr>lufs = Fin (- 54), peak = 1 / 100\<rparr>,
               ''loud'' \<mapsto> \<lparr>lufs = Fin (- 34), peak = 1 / 100\<rparr>],
      inflight = Map.empty\<rparr> ''quiet''
   < computeGain \<lparr>enabled = True, target = - 14, audioCtx = None, gainA = None, gainB = None,
      cache = [''quiet'' \<mapsto> \<lparr>lufs = Fin (- 54), peak = 1 / 100\<rparr>,
               ''loud'' \<mapsto> \<lparr>lufs = Fin (- 34), peak = 1 / 100\<rparr>],
      inflight = Map.empty\<rparr> ''loud''"
  by (simp add: computeGain_def Let_def PEAK_CEILING_def log10_hundredth)

text \<open>
  C3, amended: with equal peak and target, the quieter measurement gets a gain at least as
  large as the louder one, provided the quieter measurement's gain after the peak-ceiling
  clamp does not exceed the 24 dB hard cap.
\<close>

theorem computeGain_monotone:
  assumes "cache s1 k1 = Some d1" and "lufs d1 = Fin l1"
    and "cache s2 k2 = Some d2" and "lufs d2 = Fin l2"
    and "peak d1 = peak d2" and "target s1 = target s2"
    and "l1 \<le> l2"
    and "min (target s1 - l1)
           (PEAK_CEILING - 20 * log 10 (if peak d1 = 0 then 1 / 10000000000 else peak d1))
         \<le> 24"
  shows "computeGain s2 k2 \<le> computeGain s1 k1"
proof -
  define c where
    "c = PEAK_CEILING - 20 * log 10 (if peak d1 = 0 then 1 / 10000000000 else peak d1)"
  have c2: "c = PEAK_CEILING - 20 * log 10 (if peak d2 = 0 then 1 / 10000000000 else peak d2)"
    unfolding c_def assms(5) ..
  have cap: "min (target s1 - l1) c \<le> 24"
    using assms(8) unfolding c_def .
  have "computeGain s1 k1 =
      (if min (target s1 - l1) c > 24 then 1 else 10 powr (min (target s1 - l1) c / 20))"
    unfolding c_def using assms(1,2) by (rule computeGain_Fin [unfolded Let_def])
  moreover have "\<not> min (target s1 - l1) c > 24" using cap by linarith
  ultimately have g1: "computeGain s1 k1 = 10 powr (min (target s1 - l1) c / 20)"
    by (simp only: if_False)
  have le: "min (target s1 - l2) c \<le> min (target s1 - l1) c"
    using assms(7) by (simp add: min_def)
  then have cap2: "min (target s1 - l2) c \<le> 24" using cap by simp
  have "computeGain s2 k2 =
      (if min (target s2 - l2) c > 24 then 1 else 10 powr (min (target s2 - l2) c / 20))"
    unfolding c2 using assms(3,4) by (rule computeGain_Fin [unfolded Let_def])
  moreover have "\<not> min (target s2 - l2) c > 24" using cap2 assms(6) by linarith
  ultimately have "computeGain s2 k2 = 10 powr (min (target s2 - l2) c / 20)"
    by (simp only: if_False)
  then have g2: "computeGain s2 k2 = 10 powr (min (target s1 - l2) c / 20)"
    using assms(6) by simp
  show ?thesis unfolding g1 g2 using le by simp
qed

theorem computeGain_monotone_witness:
  "(- 34::real) \<le> - 24
   \<and> computeGain \<lparr>enabled = True, target = - 14, audioCtx = None, gainA = None, gainB = None,
      cache = [''quiet'' \<mapsto> \<lparr>lufs = Fin (- 34), peak = 1 / 100\<rparr>,
               ''loud'' \<mapsto> \<lparr>lufs = Fin (- 24), peak = 1 / 100\<rparr>],
      inflight = Map.empty\<rparr> ''loud''
   \<le> computeGain \<lparr>enabled = True, target = - 14, audioCtx = None, gainA = None, gainB = None,
      cache = [''quiet'' \<mapsto> \<lparr>lufs = Fin (- 34), peak = 1 / 100\<rparr>,
               ''loud'' \<mapsto> \<lparr>lufs = Fin (- 24), peak = 1 / 100\<rparr>],
      inflight = Map.empty\<rparr> ''quiet''"
proof -
  let ?s = "\<lparr>enabled = True, target = - 14, audioCtx = None, gainA = None, gainB = None,
      cache = [''quiet'' \<mapsto> \<lparr>lufs = Fin (- 34), peak = 1 / 100\<rparr>,
               ''loud'' \<mapsto> \<lparr>lufs = Fin (- 24), peak = 1 / 100\<rparr>],
      inflight = Map.empty\<rparr>"
  have "computeGain ?s ''loud'' \<le> computeGain ?s ''quiet''"
    by (rule computeGain_monotone
          [of ?s "''quiet''" "\<lparr>lufs = Fin (- 34), peak = 1 / 100\<rparr>" "- 34"
              ?s "''loud''" "\<lparr>lufs = Fin (- 24), peak = 1 / 100\<rparr>" "- 24"])
       (simp_all add: PEAK_CEILING_def log10_hundredth)
  then show ?thesis by simp
qed

subsection \<open>What each operation leaves alone\<close>

lemma dedup_inv_frame:
  "cache s' = cache s \<Longrightarrow> inflight s' = inflight s \<Longrightarrow> pending s' = pending s
   \<Longrightarrow> fetches s' = fetches s \<Longrightarrow> dedup_inv s' = dedup_inv s"
  by (simp add: dedup_inv_def)

lemma setTargetAtTime_frame [simp]:
  "cache (setTargetAtTime el v t tc s) = cache s"
  "inflight (setTargetAtTime el v t tc s) = inflight s"
  "enabled (setTargetAtTime el v t tc s) = enabled s"
  "target (setTargetAtTime el v t tc s) = target s"
  "audioCtx (setTargetAtTime el v t tc s) = audioCtx s"
  by (simp_all add: setTargetAtTime_def)

lemma setTargetAtTime_world [simp]:
  "pending (setTargetAtTime el v t tc w) = pending w"
  "fetches (setTargetAtTime el v t tc w) = fetches w"
  "settled (setTargetAtTime el v t tc w) = settled w"
  "waiters (setTargetAtTime el v t tc w) = waiters w"
  "src (setTargetAtTime el v t tc w) = src w"
  by (simp_all add: setTargetAtTime_def)

lemma applyGain_frame [simp]:
  "cache (applyGain s el k) = cache s"
  "inflight (applyGain s el k) = inflight s"
  "enabled (applyGain s el k) = enabled s"
  "target (applyGain s el k) = target s"
  "audioCtx (applyGain s el k) = audioCtx s"
  by (simp_all add: applyGain_def split: option.split)

lemma applyGain_world [simp]:
  "pending (applyGain w el k) = pending w"
  "fetches (applyGain w el k) = fetches w"
  "settled (applyGain w el k) = settled w"
  "waiters (applyGain w el k) = waiters w"
  "src (applyGain w el k) = src w"
  by (simp_all add: applyGain_def split: option.split)

lemma resetGain_frame [simp]:
  "cache (resetGain s el) = cache s"
  "inflight (resetGain s el) = inflight s"
  "enabled (resetGain s el) = enabled s"
  "target (resetGain s el) = target s"
  "audioCtx (resetGain s el) = audioCtx s"
  by (simp_all add: resetGain_def split: option.split)

lemma resetGain_world [simp]:
  "pending (resetGain w el) = pending w"
  "fetches (resetGain w el) = fetches w"
  "settled (resetGain w el) = settled w"
  "waiters (resetGain w el) = waiters w"
  "src (resetGain w el) = src w"
  by (simp_all add: resetGain_def split: option.split)

lemma initAudioContext_frame [simp]:
  "cache (initAudioContext s) = cache s"
  "inflight (initAudioContext s) = inflight s"
  "enabled (initAudioContext s) = enabled s"
  "target (initAudioContext s) = target s"
  by (simp_all add: initAudioContext_def split: option.split)

lemma initAudioContext_world [simp]:
  "pending (initAudioContext w) = pending w"
  "fetches (initAudioContext w) = fetches w"
  "settled (initAudioContext w) = settled w"
  "waiters (initAudioContext w) = waiters w"
  "src (initAudioContext w) = src w"
  by (simp_all add: initAudioContext_def split: option.split)

lemma setEnabled_frame [simp]:
  "cache (setEnabled s v) = cache s"
  "inflight (setEnabled s v) = inflight s"
  "enabled (setEnabled s v) = v"
  "target (setEnabled s v) = target s"
  "audioCtx (setEnabled s v) = audioCtx s"
  by (simp_all add: setEnabled_def Let_def)

lemma setEnabled_world [simp]:
  "pending (setEnabled w v) = pending w"
  "fetches (setEnabled w v) = fetches w"
  "settled (setEnabled w v) = settled w"
  "waiters (setEnabled w v) = waiters w"
  "src (setEnabled w v) = src w"
  by (simp_all add: setEnabled_def Let_def)

lemma clearCache_world [simp]:
  "pending (clearCache w) = pending w"
  "fetches (clearCache w) = fetches w"
  "cache (clearCache w) = Map.empty"
  "inflight (clearCache w) = Map.empty"
  by (simp_all add: clearCache_def)

lemma destroy_world [simp]:
  "pending (destroy w) = pending w"
  "fetches (destroy w) = fetches w"
  "cache (destroy w) = Map.empty"
  "inflight (destroy w) = Map.empty"
  by (simp_all add: destroy_def clearCache_def Let_def split: option.split)

lemma setTarget_world [simp]:
  "pending (setTarget w l) = pending w"
  "fetches (setTarget w l) = fetches w"
  "cache (setTarget w l) = cache w"
  "inflight (setTarget w l) = inflight w"
  by (simp_all add: setTarget_def)

lemma analyzeAndApply_resume_frame [simp]:
  "cache (analyzeAndApply_resume w r el url t) = cache w"
  "inflight (analyzeAndApply_resume w r el url t) = inflight w"
  "pending (analyzeAndApply_resume w r el url t) = pending w"
  "fetches (analyzeAndApply_resume w r el url t) = fetches w"
  by (simp_all add: analyzeAndApply_resume_def split: option.split)


subsection \<open>The deduplication invariant\<close>

lemma dedup_invI:
  assumes "\<And>q u. (q, u) \<in> set (pending s) \<Longrightarrow>
              inflight s u = Some q \<and> cache s u = None \<and> q < length (fetches s)"
    and "\<And>u q. inflight s u = Some q \<Longrightarrow> (q, u) \<in> set (pending s)"
    and "distinct (map fst (pending s))"
  shows "dedup_inv s"
  unfolding dedup_inv_def using assms by blast

lemma dedup_invD:
  assumes "dedup_inv s"
  shows "(q, u) \<in> set (pending s) \<Longrightarrow>
           inflight s u = Some q \<and> cache s u = None \<and> q < length (fetches s)"
    and "inflight s u = Some q \<Longrightarrow> (q, u) \<in> set (pending s)"
    and "distinct (map fst (pending s))"
  using assms unfolding dedup_inv_def by blast+

lemma analyzeLUFS_new:
  assumes "cache s t = None" and "inflight s t = None"
  shows "analyzeLUFS s url t =
     (Pending (length (fetches s)),
      s\<lparr>inflight := (inflight s)(t \<mapsto> length (fetches s)),
        fetches := fetches s @ [(url, t)],
        pending := pending s @ [(length (fetches s), t)]\<rparr>)"
  using assms by (simp add: analyzeLUFS_def Let_def)

lemma analyzeLUFS_inv:
  assumes "dedup_inv s"
  shows "dedup_inv (snd (analyzeLUFS s url t))"
proof (cases "cache s t")
  case (Some m)
  then show ?thesis using assms by (simp add: analyzeLUFS_def)
next
  case None
  show ?thesis
  proof (cases "inflight s t")
    case (Some p)
    then show ?thesis using assms None by (simp add: analyzeLUFS_def)
  next
    case inf: None
    let ?n = "length (fetches s)"
    let ?s' = "s\<lparr>inflight := (inflight s)(t \<mapsto> ?n), fetches := fetches s @ [(url, t)],
                  pending := pending s @ [(?n, t)]\<rparr>"
    note a = dedup_invD(1) [OF assms] and b = dedup_invD(2) [OF assms]
    have nopend: "(q, t) \<notin> set (pending s)" for q
      using a [of q t] inf by auto
    have "dedup_inv ?s'"
    proof (rule dedup_invI)
      fix q u
      assume "(q, u) \<in> set (pending ?s')"
      then consider "(q, u) \<in> set (pending s)" | "q = ?n" "u = t" by auto
      then show "inflight ?s' u = Some q \<and> cache ?s' u = None \<and> q < length (fetches ?s')"
      proof cases
        case 1
        then have "u \<noteq> t" using nopend by auto
        then show ?thesis using a [OF 1] by simp
      next
        case 2
        then show ?thesis using None by simp
      qed
    next
      fix u q
      assume "inflight ?s' u = Some q"
      then have "(u = t \<and> q = ?n) \<or> (u \<noteq> t \<and> inflight s u = Some q)"
        by (cases "u = t") simp_all
      then show "(q, u) \<in> set (pending ?s')"
        using b by auto
    next
      have "?n \<notin> fst ` set (pending s)"
      proof
        assume "?n \<in> fst ` set (pending s)"
        then obtain u where "(?n, u) \<in> set (pending s)" by auto
        from a [OF this] show False by simp
      qed
      then show "distinct (map fst (pending ?s'))"
        using dedup_invD(3) [OF assms] by simp
    qed
    then show ?thesis unfolding analyzeLUFS_new [OF None inf] by simp
  qed
qed

lemma settle_success:
  assumes "map_of (pending s) p = Some t" and "analysis_try outcome = Some (Inr m)"
  shows "settle s p outcome =
     Some (s\<lparr>cache := (cache s)(t \<mapsto> m), inflight := (inflight s)(t := None),
             pending := filter (\<lambda>(q, u). q \<noteq> p) (pending s),
             settled := (settled s)(p \<mapsto> Some m)\<rparr>)"
  using assms by (simp add: settle_def)

lemma settle_failure:
  assumes "map_of (pending s) p = Some t" and "analysis_try outcome = Some (Inl e)"
  shows "settle s p outcome =
     Some (s\<lparr>inflight := (inflight s)(t := None),
             pending := filter (\<lambda>(q, u). q \<noteq> p) (pending s),
             settled := (settled s)(p \<mapsto> None)\<rparr>)"
  using assms by (simp add: settle_def)

lemma settle_inv:
  assumes "dedup_inv s" and "settle s p outcome = Some s'"
  shows "dedup_inv s'"
proof -
  note a = dedup_invD(1) [OF assms(1)] and b = dedup_invD(2) [OF assms(1)]
    and d = dedup_invD(3) [OF assms(1)]
  obtain t where pt: "map_of (pending s) p = Some t"
    using assms(2) by (cases "map_of (pending s) p") (simp_all add: settle_def)
  then have mem: "(p, t) \<in> set (pending s)" by (rule map_of_SomeD)
  have inf: "inflight s t = Some p" "cache s t = None"
    using a [OF mem] by simp_all
  obtain r where r: "analysis_try outcome = Some r"
    using assms(2) pt by (cases "analysis_try outcome") (simp_all add: settle_def)
  let ?rest = "filter (\<lambda>(q, u). q \<noteq> p) (pending s)"
  have keep: "inflight s u = Some q \<and> cache s u = None \<and> q < length (fetches s) \<and> u \<noteq> t"
    if "(q, u) \<in> set ?rest" for q u
  proof -
    from that have m: "(q, u) \<in> set (pending s)" and ne: "q \<noteq> p" by auto
    from a [OF m] inf ne show ?thesis by auto
  qed
  have conv: "(q, u) \<in> set ?rest" if "inflight s u = Some q" and "u \<noteq> t" for q u
  proof -
    have m: "(q, u) \<in> set (pending s)" using b [OF that(1)] .
    have "q \<noteq> p"
    proof
      assume "q = p"
      with m mem d have "u = t" by (metis eq_key_imp_eq_value)
      with that(2) show False by simp
    qed
    with m show ?thesis by simp
  qed
  have dist: "distinct (map fst ?rest)" using d by (simp add: distinct_map_filter)
  show ?thesis
  proof (cases r)
    case (Inr m)
    let ?s' = "s\<lparr>cache := (cache s)(t \<mapsto> m), inflight := (inflight s)(t := None),
             pending := ?rest, settled := (settled s)(p \<mapsto> Some m)\<rparr>"
    have "dedup_inv ?s'"
    proof (rule dedup_invI)
      fix q u assume "(q, u) \<in> set (pending ?s')"
      then have "(q, u) \<in> set ?rest" by simp
      from keep [OF this]
      show "inflight ?s' u = Some q \<and> cache ?s' u = None \<and> q < length (fetches ?s')"
        by simp
    next
      fix u q assume "inflight ?s' u = Some q"
      then have "inflight s u = Some q" "u \<noteq> t" by (cases "u = t"; simp)+
      from conv [OF this] show "(q, u) \<in> set (pending ?s')" by simp
    next
      show "distinct (map fst (pending ?s'))" using dist by simp
    qed
    then show ?thesis using assms(2) settle_success [OF pt] r Inr by simp
  next
    case (Inl e)
    let ?s' = "s\<lparr>inflight := (inflight s)(t := None),
             pending := ?rest, settled := (settled s)(p \<mapsto> None)\<rparr>"
    have "dedup_inv ?s'"
    proof (rule dedup_invI)
      fix q u assume "(q, u) \<in> set (pending ?s')"
      then have "(q, u) \<in> set ?rest" by simp
      from keep [OF this]
      show "inflight ?s' u = Some q \<and> cache ?s' u = None \<and> q < length (fetches ?s')"
        by simp
    next
      fix u q assume "inflight ?s' u = Some q"
      then have "inflight s u = Some q" "u \<noteq> t" by (cases "u = t"; simp)+
      from conv [OF this] show "(q, u) \<in> set (pending ?s')" by simp
    next
      show "distinct (map fst (pending ?s'))" using dist by simp
    qed
    then show ?thesis using assms(2) settle_failure [OF pt] r Inl by simp
  qed
qed

lemma dedup_inv_cleared:
  "pending s = [] \<Longrightarrow> cache s = Map.empty \<Longrightarrow> inflight s = Map.empty \<Longrightarrow> dedup_inv s"
  by (simp add: dedup_inv_def)

lemma analyzeAndApply_inv:
  assumes "dedup_inv s"
  shows "dedup_inv (analyzeAndApply s el url t)"
proof (cases "enabled s")
  case False
  then show ?thesis using assms by (simp add: analyzeAndApply_def)
next
  case True
  define s1 where "s1 = (if audioCtx s = None then initAudioContext s else s)"
  have i1: "dedup_inv s1"
    using assms dedup_inv_frame [of "initAudioContext s" s] by (simp add: s1_def)
  show ?thesis
  proof (cases "cache s1 t")
    case (Some m)
    then have "analyzeAndApply s el url t = applyGain s1 el t"
      using True by (simp add: analyzeAndApply_def s1_def Let_def)
    then show ?thesis using i1 dedup_inv_frame [of "applyGain s1 el t" s1] by simp
  next
    case None
    define s2 where "s2 = (case getGainNode s1 el of None \<Rightarrow> s1
        | Some node \<Rightarrow> (case audioCtx s1 of None \<Rightarrow> s1
            | Some currentTime \<Rightarrow> setTargetAtTime el 1.0 currentTime 0.05 s1))"
    have "cache s2 = cache s1 \<and> inflight s2 = inflight s1 \<and> pending s2 = pending s1
        \<and> fetches s2 = fetches s1"
      by (simp add: s2_def split: option.split)
    then have i2: "dedup_inv s2" using i1 dedup_inv_frame [of s2 s1] by simp
    define s3 where "s3 = snd (analyzeLUFS s2 url t)"
    have i3: "dedup_inv s3" unfolding s3_def using i2 by (rule analyzeLUFS_inv)
    have "analyzeAndApply s el url t =
        s3\<lparr>waiters := waiters s3 @ [(fst (analyzeLUFS s2 url t), el, url, t)]\<rparr>"
      using True None
      by (simp add: analyzeAndApply_def s1_def [symmetric] s2_def [symmetric] s3_def Let_def
          split_beta)
    then show ?thesis
      using i3 dedup_inv_frame [of "s3\<lparr>waiters := waiters s3 @ [(fst (analyzeLUFS s2 url t), el, url, t)]\<rparr>" s3]
      by simp
  qed
qed

lemma exec_inv:
  assumes "dedup_inv s"
    and "e \<in> {CallClearCache, CallDestroy} \<longrightarrow> pending s = []"
    and "exec e s = Some s'"
  shows "dedup_inv s'"
proof (cases e)
  case CallInitAudioContext
  then show ?thesis using assms dedup_inv_frame [of "initAudioContext s" s] by auto
next
  case (CallSetEnabled v)
  then show ?thesis using assms dedup_inv_frame [of "setEnabled s v" s] by auto
next
  case (CallSetTarget l)
  then show ?thesis using assms dedup_inv_frame [of "setTarget s l" s] by auto
next
  case (CallAnalyzeAndApply el url t)
  then show ?thesis using assms analyzeAndApply_inv [of s el url t] by auto
next
  case (CallPreAnalyze url t)
  then show ?thesis using assms analyzeLUFS_inv [of s url t] by (auto simp: preAnalyze_def)
next
  case (CallApplyGain el t)
  then show ?thesis using assms dedup_inv_frame [of "applyGain s el t" s] by auto
next
  case (CallResetGain el)
  then show ?thesis using assms dedup_inv_frame [of "resetGain s el" s] by auto
next
  case CallClearCache
  then show ?thesis using assms dedup_inv_cleared [of "clearCache s"] by auto
next
  case CallDestroy
  then show ?thesis using assms dedup_inv_cleared [of "destroy s"] by auto
next
  case (Settle p outcome)
  then show ?thesis using assms settle_inv [of s p outcome s'] by auto
next
  case (Resume i)
  then obtain r el url t where
    "s' = analyzeAndApply_resume (s\<lparr>waiters := take i (waiters s) @ drop (Suc i) (waiters s)\<rparr>) r el url t"
    using assms(3) by (auto simp: resume_def split: if_splits prod.splits awaited.splits option.splits)
  then show ?thesis using assms(1) dedup_inv_frame [of s' s] by simp
next
  case (HostSetSrc el url)
  then show ?thesis using assms dedup_inv_frame [of s' s] by auto
next
  case (ClockAdvance dt)
  then show ?thesis using assms dedup_inv_frame [of s' s] by auto
qed

lemma run_inv:
  assumes "dedup_inv s" and "calm es s" and "run es s = Some s'"
  shows "dedup_inv s'"
  using assms
proof (induction es arbitrary: s)
  case Nil
  then show ?case by simp
next
  case (Cons e es)
  then obtain s1 where s1: "exec e s = Some s1" "run es s1 = Some s'"
    by (cases "exec e s") simp_all
  have "dedup_inv s1" using Cons.prems(1,2) s1(1) by (intro exec_inv [of s e s1]) simp_all
  moreover have "calm es s1" using Cons.prems(2) s1(1) by simp
  ultimately show ?case using Cons.IH s1(2) by blast
qed

lemma dedup_inv_init: "dedup_inv init_world"
  by (simp add: dedup_inv_def init_world_def)

lemma analyzeLUFS_joined:
  "cache s t = None \<Longrightarrow> inflight s t = Some p \<Longrightarrow> analyzeLUFS s url t = (Pending p, s)"
  by (simp add: analyzeLUFS_def)

lemma analyzeLUFS_calls_joined:
  "cache s t = None \<Longrightarrow> inflight s t = Some p \<Longrightarrow>
   analyzeLUFS_calls s urls t = (replicate (length urls) (Pending p), s)"
  by (induction urls) (simp_all add: analyzeLUFS_joined)

lemma analysis_try_failure:
  assumes "\<forall>audioBuffer. outcome \<noteq> Decoded audioBuffer"
  shows "\<exists>e. analysis_try outcome = Some (Inl e)"
  using assms by (cases outcome) simp_all


lemmas world_defs = init_world_def setEnabled_def preAnalyze_def analyzeLUFS_def
  analyzeAndApply_def initAudioContext_def getGainNode_def setTargetAtTime_def
  resetGain_def clearCache_def applyGain_def Let_def DEFAULT_TARGET_def


lemmas run_defs = world_defs settle_def resume_def analyzeAndApply_resume_def


subsection \<open>Cache and in-flight table\<close>

text \<open>
  C6, as stated: at most one analysis per track is in flight at any time. \<open>clearCache\<close>
  empties the in-flight table and leaves the running body alone, so the next request for
  the track starts a second body and a second fetch.
\<close>

theorem duplicate_analysis_after_clear:
  "map_option pending
     (run [CallSetEnabled True, CallPreAnalyze ''u'' ''t'', CallClearCache,
           CallPreAnalyze ''u'' ''t''] init_world)
     = Some [(0, ''t''), (1, ''t'')]
   \<and> map_option fetches
     (run [CallSetEnabled True, CallPreAnalyze ''u'' ''t'', CallClearCache,
           CallPreAnalyze ''u'' ''t''] init_world)
     = Some [(''u'', ''t''), (''u'', ''t'')]"
  by (simp add: world_defs)


text \<open>
  C6, amended: in every run from the initial state in which \<open>clearCache\<close> and
  \<open>destroy\<close> are called only while no analysis is pending, at most one analysis per
  track is pending and it is the one in the in-flight table; a cached track is answered
  from the cache with no new work; a track in flight is answered with its pending promise
  and no new fetch; and any number of calls in a row for a track neither cached nor in
  flight start exactly one fetch and all return the same promise.
\<close>

theorem analyses_deduplicated:
  assumes "calm es init_world" and "run es init_world = Some s"
  shows "(\<forall>t p q. (p, t) \<in> set (pending s) \<and> (q, t) \<in> set (pending s) \<longrightarrow> p = q)
       \<and> (\<forall>t p. (p, t) \<in> set (pending s) \<longleftrightarrow> inflight s t = Some p)
       \<and> (\<forall>t m url. cache s t = Some m \<longrightarrow> analyzeLUFS s url t = (Resolved (Some m), s))
       \<and> (\<forall>t p url. inflight s t = Some p \<longrightarrow> analyzeLUFS s url t = (Pending p, s))
       \<and> (\<forall>t url urls. cache s t = None \<and> inflight s t = None \<longrightarrow>
             (\<exists>s'. analyzeLUFS_calls s (url # urls) t
                     = (replicate (Suc (length urls)) (Pending (length (fetches s))), s')
                 \<and> fetches s' = fetches s @ [(url, t)]
                 \<and> pending s' = pending s @ [(length (fetches s), t)]))"
proof -
  have inv: "dedup_inv s"
    using dedup_inv_init assms by (rule run_inv)
  note a = dedup_invD(1) [OF inv] and b = dedup_invD(2) [OF inv]
  have one: "\<forall>t p q. (p, t) \<in> set (pending s) \<and> (q, t) \<in> set (pending s) \<longrightarrow> p = q"
  proof (intro allI impI)
    fix t p q assume "(p, t) \<in> set (pending s) \<and> (q, t) \<in> set (pending s)"
    then have "inflight s t = Some p" "inflight s t = Some q" using a by blast+
    then show "p = q" by simp
  qed
  have reg: "\<forall>t p. (p, t) \<in> set (pending s) \<longleftrightarrow> inflight s t = Some p"
    using a b by blast
  have cached: "\<forall>t m url. cache s t = Some m \<longrightarrow> analyzeLUFS s url t = (Resolved (Some m), s)"
    by (simp add: analyzeLUFS_def)
  have joined: "\<forall>t p url. inflight s t = Some p \<longrightarrow> analyzeLUFS s url t = (Pending p, s)"
  proof (intro allI impI)
    fix t p url assume i: "inflight s t = Some p"
    then have "cache s t = None" using a b by blast
    then show "analyzeLUFS s url t = (Pending p, s)" using i by (rule analyzeLUFS_joined)
  qed
  have many: "\<forall>t url urls. cache s t = None \<and> inflight s t = None \<longrightarrow>
             (\<exists>s'. analyzeLUFS_calls s (url # urls) t
                     = (replicate (Suc (length urls)) (Pending (length (fetches s))), s')
                 \<and> fetches s' = fetches s @ [(url, t)]
                 \<and> pending s' = pending s @ [(length (fetches s), t)])"
  proof (intro allI impI)
    fix t url urls assume c: "cache s t = None \<and> inflight s t = None"
    let ?n = "length (fetches s)"
    let ?s' = "s\<lparr>inflight := (inflight s)(t \<mapsto> ?n), fetches := fetches s @ [(url, t)],
                  pending := pending s @ [(?n, t)]\<rparr>"
    have first: "analyzeLUFS s url t = (Pending ?n, ?s')"
      using c by (simp add: analyzeLUFS_new)
    have rest: "analyzeLUFS_calls ?s' urls t = (replicate (length urls) (Pending ?n), ?s')"
      using c by (intro analyzeLUFS_calls_joined) simp_all
    have "analyzeLUFS_calls s (url # urls) t = (replicate (Suc (length urls)) (Pending ?n), ?s')"
      using first rest by simp
    then show "\<exists>s'. analyzeLUFS_calls s (url # urls) t
                     = (replicate (Suc (length urls)) (Pending ?n), s')
                 \<and> fetches s' = fetches s @ [(url, t)]
                 \<and> pending s' = pending s @ [(?n, t)]"
      by (intro exI [of _ ?s']) simp
  qed
  from one reg cached joined many show ?thesis by blast
qed


theorem analyses_deduplicated_witness:
  "calm [CallSetEnabled True, CallPreAnalyze ''u'' ''t'',
         CallAnalyzeAndApply AudioA ''u'' ''t'', CallPreAnalyze ''u'' ''t''] init_world
   \<and> (case run [CallSetEnabled True, CallPreAnalyze ''u'' ''t'',
         CallAnalyzeAndApply AudioA ''u'' ''t'', CallPreAnalyze ''u'' ''t''] init_world of
         None \<Rightarrow> False
       | Some s \<Rightarrow>
           pending s = [(0, ''t'')] \<and> fetches s = [(''u'', ''t'')]
           \<and> inflight s ''t'' = Some 0
           \<and> analyzeLUFS s ''v'' ''t'' = (Pending 0, s))"
proof -
  let ?es = "[CallSetEnabled True, CallPreAnalyze ''u'' ''t'',
         CallAnalyzeAndApply AudioA ''u'' ''t'', CallPreAnalyze ''u'' ''t'']"
  have c: "calm ?es init_world" by (simp add: world_defs)
  obtain s where s: "run ?es init_world = Some s"
    by (simp add: world_defs)
  have p: "pending s = [(0, ''t'')]" "fetches s = [(''u'', ''t'')]" "inflight s ''t'' = Some 0"
    using s by (auto simp: world_defs)
  from analyses_deduplicated [OF c s] p(3)
  have "analyzeLUFS s ''v'' ''t'' = (Pending 0, s)" by blast
  with c s p show ?thesis by simp
qed

text \<open>
  C7. When the fetch fails, the response is not ok or decoding fails, the body of a pending
  analysis ends with the promise resolved to null, the cache as it was and the in-flight
  entry gone. If the track was not cached, its gain is unity and the next request starts
  a new body with a new fetch. A suspended \<open>analyzeAndApply\<close> waiting on the promise
  ends without touching anything.
\<close>

theorem failure_not_cached:
  assumes "map_of (pending s) p = Some t"
    and "\<forall>audioBuffer. outcome \<noteq> Decoded audioBuffer"
  shows "(let s' = s\<lparr>inflight := (inflight s)(t := None),
                     pending := filter (\<lambda>(q, u). q \<noteq> p) (pending s),
                     settled := (settled s)(p \<mapsto> None)\<rparr>
          in settle s p outcome = Some s'
             \<and> settled s' p = Some None
             \<and> cache s' = cache s
             \<and> inflight s' t = None
             \<and> map_of (pending s') p = None
             \<and> (cache s t = None \<longrightarrow>
                   computeGain s' t = 1
                   \<and> (\<forall>url. analyzeLUFS s' url t =
                         (Pending (length (fetches s')),
                          s'\<lparr>inflight := (inflight s')(t \<mapsto> length (fetches s')),
                             fetches := fetches s' @ [(url, t)],
                             pending := pending s' @ [(length (fetches s'), t)]\<rparr>)))
             \<and> (\<forall>i audioEl url. i < length (waiters s')
                    \<and> waiters s' ! i = (Pending p, audioEl, url, t) \<longrightarrow>
                    resume s' i
                      = Some (s'\<lparr>waiters := take i (waiters s') @ drop (Suc i) (waiters s')\<rparr>)))"
proof -
  define s' where "s' = s\<lparr>inflight := (inflight s)(t := None),
                     pending := filter (\<lambda>(q, u). q \<noteq> p) (pending s),
                     settled := (settled s)(p \<mapsto> None)\<rparr>"
  obtain e where e: "analysis_try outcome = Some (Inl e)"
    using analysis_try_failure [OF assms(2)] by blast
  have a: "settle s p outcome = Some s'"
    unfolding s'_def using assms(1) e by (rule settle_failure)
  have b: "settled s' p = Some None" "cache s' = cache s" "inflight s' t = None"
    by (simp_all add: s'_def)
  have c: "map_of (pending s') p = None"
    by (auto simp: s'_def map_of_eq_None_iff)
  have d: "computeGain s' t = 1
      \<and> (\<forall>url. analyzeLUFS s' url t =
            (Pending (length (fetches s')),
             s'\<lparr>inflight := (inflight s')(t \<mapsto> length (fetches s')),
                fetches := fetches s' @ [(url, t)],
                pending := pending s' @ [(length (fetches s'), t)]\<rparr>))"
    if "cache s t = None"
    using that b by (simp add: computeGain_def analyzeLUFS_new)
  have f: "resume s' i = Some (s'\<lparr>waiters := take i (waiters s') @ drop (Suc i) (waiters s')\<rparr>)"
    if "i < length (waiters s') \<and> waiters s' ! i = (Pending p, audioEl, url, t)"
    for i audioEl url
    using that b(1) by (simp add: resume_def analyzeAndApply_resume_def)
  show ?thesis
    unfolding Let_def s'_def [symmetric] using a b c d f by blast
qed


theorem failure_not_cached_witness:
  "(case run [CallSetEnabled True, CallAnalyzeAndApply AudioA ''u'' ''t''] init_world of
      None \<Rightarrow> False
    | Some s \<Rightarrow>
        map_of (pending s) 0 = Some ''t'' \<and> cache s ''t'' = None
        \<and> inflight s ''t'' = Some 0
        \<and> waiters s = [(Pending 0, AudioA, ''u'', ''t'')]
        \<and> (case settle s 0 FetchRejected of
              None \<Rightarrow> False
            | Some s' \<Rightarrow>
                settled s' 0 = Some None \<and> cache s' = cache s \<and> inflight s' ''t'' = None
                \<and> pending s' = []
                \<and> computeGain s' ''t'' = 1
                \<and> fst (analyzeLUFS s' ''u'' ''t'') = Pending 1
                \<and> fetches (snd (analyzeLUFS s' ''u'' ''t'')) = [(''u'', ''t''), (''u'', ''t'')]
                \<and> resume s' 0 = Some (s'\<lparr>waiters := []\<rparr>)))"
proof -
  obtain s where s: "run [CallSetEnabled True, CallAnalyzeAndApply AudioA ''u'' ''t''] init_world
      = Some s"
    by (simp add: run_defs)
  have f: "map_of (pending s) 0 = Some ''t''" "cache s ''t'' = None" "inflight s ''t'' = Some 0"
    "waiters s = [(Pending 0, AudioA, ''u'', ''t'')]" "pending s = [(0, ''t'')]"
    "fetches s = [(''u'', ''t'')]"
    using s by (auto simp: run_defs)
  have o: "\<forall>audioBuffer. FetchRejected \<noteq> Decoded audioBuffer" by simp
  define s' where "s' = s\<lparr>inflight := (inflight s)(''t'' := None),
                     pending := filter (\<lambda>(q, u). q \<noteq> 0) (pending s),
                     settled := (settled s)(0 \<mapsto> None)\<rparr>"
  note fc = failure_not_cached [OF f(1) o, unfolded Let_def, folded s'_def]
  have w: "waiters s' = [(Pending 0, AudioA, ''u'', ''t'')]" "fetches s' = [(''u'', ''t'')]"
    "pending s' = []"
    by (simp_all add: s'_def f)
  have a: "settle s 0 FetchRejected = Some s'" using fc by blast
  have b: "settled s' 0 = Some None" "cache s' = cache s" "inflight s' ''t'' = None"
    using fc by blast+
  have c: "computeGain s' ''t'' = 1" using fc f(2) by blast
  have d: "analyzeLUFS s' ''u'' ''t'' =
      (Pending (length (fetches s')),
       s'\<lparr>inflight := (inflight s')(''t'' \<mapsto> length (fetches s')),
          fetches := fetches s' @ [(''u'', ''t'')],
          pending := pending s' @ [(length (fetches s'), ''t'')]\<rparr>)"
    using fc f(2) by blast
  have e: "resume s' 0 = Some (s'\<lparr>waiters := take 0 (waiters s') @ drop (Suc 0) (waiters s')\<rparr>)"
    using fc w(1) by (metis length_Cons nth_Cons_0 zero_less_Suc)
  show ?thesis
    unfolding s using f a b c w by (simp add: d e)
qed


text \<open>
  C8, as stated: \<open>setEnabled(false)\<close> schedules a ramp to unity on both lanes whatever
  went before. Without an audio context \<open>resetGain\<close> returns at once: in the initial
  state nothing is scheduled, and gain nodes left behind by \<open>destroy\<close> keep the target
  they had.
\<close>

theorem disable_without_context:
  "setEnabled init_world False = init_world
   \<and> gainA init_world = None \<and> gainB init_world = None
   \<and> setEnabled (init_world\<lparr>enabled := True, gainA := Some [(2, 0, RAMP_TIME / 3)],
                              gainB := Some []\<rparr>) False
       = init_world\<lparr>gainA := Some [(2, 0, RAMP_TIME / 3)], gainB := Some []\<rparr>"
  by (simp add: setEnabled_def resetGain_def init_world_def Let_def)


text \<open>
  C8, amended: with an audio context, \<open>setEnabled(false)\<close> clears the flag and
  schedules on both gain nodes a ramp to 1 from the current time with time constant
  RAMP_TIME / 3, whatever was scheduled before; without one it only clears the flag. While
  the normalizer is disabled a call of \<open>analyzeAndApply\<close> changes nothing.
\<close>

theorem disable_resets_gain:
  "(audioCtx s = Some now \<and> gainA s = Some a \<and> gainB s = Some b \<longrightarrow>
      setEnabled s False
        = s\<lparr>enabled := False, gainA := Some ((1, now, RAMP_TIME / 3) # a),
             gainB := Some ((1, now, RAMP_TIME / 3) # b)\<rparr>)
   \<and> (audioCtx s = None \<longrightarrow> setEnabled s False = s\<lparr>enabled := False\<rparr>)
   \<and> (\<not> enabled s \<longrightarrow> analyzeAndApply s audioEl url trackId = s)"
  by (simp add: setEnabled_def resetGain_def getGainNode_def setTargetAtTime_def
      analyzeAndApply_def Let_def)


theorem disable_resets_gain_witness:
  "setEnabled
     (init_world\<lparr>enabled := True, audioCtx := Some 5, gainA := Some [(2, 1, RAMP_TIME / 3)],
                 gainB := Some [(1 / 2, 1, RAMP_TIME / 3)]\<rparr>) False
     = init_world\<lparr>enabled := False, audioCtx := Some 5,
                  gainA := Some [(1, 5, RAMP_TIME / 3), (2, 1, RAMP_TIME / 3)],
                  gainB := Some [(1, 5, RAMP_TIME / 3), (1 / 2, 1, RAMP_TIME / 3)]\<rparr>
   \<and> audioCtx init_world = None
   \<and> setEnabled init_world False = init_world\<lparr>enabled := False\<rparr>
   \<and> \<not> enabled init_world
   \<and> analyzeAndApply init_world AudioA ''u'' ''t'' = init_world"
proof -
  let ?w = "init_world\<lparr>enabled := True, audioCtx := Some 5, gainA := Some [(2, 1, RAMP_TIME / 3)],
                 gainB := Some [(1 / 2, 1, RAMP_TIME / 3)]\<rparr>"
  have a: "setEnabled ?w False
      = ?w\<lparr>enabled := False, gainA := Some ((1, 5, RAMP_TIME / 3) # [(2, 1, RAMP_TIME / 3)]),
           gainB := Some ((1, 5, RAMP_TIME / 3) # [(1 / 2, 1, RAMP_TIME / 3)])\<rparr>"
    using disable_resets_gain [of ?w 5 "[(2, 1, RAMP_TIME / 3)]" "[(1 / 2, 1, RAMP_TIME / 3)]"]
    by simp
  have n: "audioCtx init_world = None" "\<not> enabled init_world"
    by (simp_all add: init_world_def)
  have b: "setEnabled init_world False = init_world\<lparr>enabled := False\<rparr>"
    using disable_resets_gain [of init_world] n by blast
  have c: "analyzeAndApply init_world AudioA ''u'' ''t'' = init_world"
    using disable_resets_gain [of init_world] n by blast
  show ?thesis using a b c n by simp
qed

text \<open>
  C10. When a suspended \<open>analyzeAndApply\<close> resumes with a measurement, the gain is
  applied only if the element's source is still the (non-empty) URL the analysis was started
  for; otherwise nothing changes. The source URL of the element is what the module has as
  the lane's current content.
\<close>

theorem resume_checks_source:
  "(src s audioEl \<noteq> url \<or> src s audioEl = [] \<longrightarrow>
      analyzeAndApply_resume s r audioEl url trackId = s)
   \<and> (analyzeAndApply_resume s r audioEl url trackId \<noteq> s \<longrightarrow>
        src s audioEl = url \<and> url \<noteq> [] \<and> r \<noteq> None)
   \<and> (src s audioEl = url \<and> url \<noteq> [] \<and> r \<noteq> None \<longrightarrow>
        analyzeAndApply_resume s r audioEl url trackId = applyGain s audioEl trackId)
   \<and> (i < length (waiters s) \<and> waiters s ! i = (Pending p, audioEl, url, trackId)
        \<and> settled s p = Some r \<longrightarrow>
        resume s i
          = Some (analyzeAndApply_resume
                    (s\<lparr>waiters := take i (waiters s) @ drop (Suc i) (waiters s)\<rparr>)
                    r audioEl url trackId))"
proof (intro conjI impI)
  assume "src s audioEl \<noteq> url \<or> src s audioEl = []"
  then show "analyzeAndApply_resume s r audioEl url trackId = s"
    by (cases r) (auto simp: analyzeAndApply_resume_def)
next
  assume changed: "analyzeAndApply_resume s r audioEl url trackId \<noteq> s"
  show "src s audioEl = url"
  proof (rule ccontr)
    assume "src s audioEl \<noteq> url"
    then have "analyzeAndApply_resume s r audioEl url trackId = s"
      by (cases r) (simp_all add: analyzeAndApply_resume_def)
    with changed show False by simp
  qed
  show "url \<noteq> []"
  proof
    assume "url = []"
    then have "analyzeAndApply_resume s r audioEl url trackId = s"
      by (cases r) (simp_all add: analyzeAndApply_resume_def)
    with changed show False by simp
  qed
  show "r \<noteq> None"
  proof
    assume "r = None"
    then have "analyzeAndApply_resume s r audioEl url trackId = s"
      by (simp add: analyzeAndApply_resume_def)
    with changed show False by simp
  qed
next
  assume "src s audioEl = url \<and> url \<noteq> [] \<and> r \<noteq> None"
  then show "analyzeAndApply_resume s r audioEl url trackId = applyGain s audioEl trackId"
    by (cases r) (simp_all add: analyzeAndApply_resume_def)
next
  assume "i < length (waiters s) \<and> waiters s ! i = (Pending p, audioEl, url, trackId)
        \<and> settled s p = Some r"
  then show "resume s i
      = Some (analyzeAndApply_resume
                (s\<lparr>waiters := take i (waiters s) @ drop (Suc i) (waiters s)\<rparr>)
                r audioEl url trackId)"
    by (simp add: resume_def)
qed

theorem resume_checks_source_witness:
  "(case run [CallSetEnabled True, HostSetSrc AudioA ''u'',
              CallAnalyzeAndApply AudioA ''u'' ''t'', HostSetSrc AudioA ''v'',
              Settle 0 (Decoded two_pulses)] init_world of
      None \<Rightarrow> False
    | Some s \<Rightarrow>
        waiters s = [(Pending 0, AudioA, ''u'', ''t'')] \<and> src s AudioA \<noteq> ''u''
        \<and> resume s 0 = Some (s\<lparr>waiters := []\<rparr>))
   \<and> (case run [CallSetEnabled True, HostSetSrc AudioA ''u'',
              CallAnalyzeAndApply AudioA ''u'' ''t'',
              Settle 0 (Decoded two_pulses)] init_world of
      None \<Rightarrow> False
    | Some s \<Rightarrow>
        waiters s = [(Pending 0, AudioA, ''u'', ''t'')] \<and> src s AudioA = ''u''
        \<and> resume s 0 = Some (applyGain (s\<lparr>waiters := []\<rparr>) AudioA ''t'')
        \<and> gainA (applyGain (s\<lparr>waiters := []\<rparr>) AudioA ''t'')
            = Some [(computeGain s ''t'', 0, RAMP_TIME / 3), (1, 0, 0.05)])"
proof -
  let ?m = "\<lparr>lufs = Fin (- 0.691 + 10 * log 10
              ((1931544753100607893848662951829 / 32000000000000000000000000000000000000
                + 70698250035657430749569813427 / 160000000000000000000000000000000000) / 2)),
           peak = 0.06\<rparr>"
  obtain s1 where s1: "run [CallSetEnabled True, HostSetSrc AudioA ''u'',
              CallAnalyzeAndApply AudioA ''u'' ''t'', HostSetSrc AudioA ''v'',
              Settle 0 (Decoded two_pulses)] init_world = Some s1"
    by (simp add: run_defs measureLUFS_two_pulses)
  have f1: "waiters s1 = [(Pending 0, AudioA, ''u'', ''t'')]" "src s1 AudioA = ''v''"
    "settled s1 0 = Some (Some ?m)"
    using s1 by (auto simp: run_defs measureLUFS_two_pulses)
  have r1: "resume s1 0 = Some (s1\<lparr>waiters := []\<rparr>)"
    using resume_checks_source [of s1 AudioA "''u''" "Some ?m" "''t''" 0 0] f1
      resume_checks_source [of "s1\<lparr>waiters := []\<rparr>" AudioA "''u''" "Some ?m" "''t''" 0 0]
    by simp
  obtain s2 where s2: "run [CallSetEnabled True, HostSetSrc AudioA ''u'',
              CallAnalyzeAndApply AudioA ''u'' ''t'',
              Settle 0 (Decoded two_pulses)] init_world = Some s2"
    by (simp add: run_defs measureLUFS_two_pulses)
  have f2: "waiters s2 = [(Pending 0, AudioA, ''u'', ''t'')]" "src s2 AudioA = ''u''"
    "settled s2 0 = Some (Some ?m)" "enabled s2" "audioCtx s2 = Some 0"
    "gainA s2 = Some [(1, 0, 0.05)]" "cache s2 ''t'' = Some ?m" "target s2 = - 14"
    using s2 by (auto simp: run_defs measureLUFS_two_pulses)
  have r2: "resume s2 0 = Some (applyGain (s2\<lparr>waiters := []\<rparr>) AudioA ''t'')"
    using resume_checks_source [of s2 AudioA "''u''" "Some ?m" "''t''" 0 0] f2
      resume_checks_source [of "s2\<lparr>waiters := []\<rparr>" AudioA "''u''" "Some ?m" "''t''" 0 0]
    by simp
  have g2: "gainA (applyGain (s2\<lparr>waiters := []\<rparr>) AudioA ''t'')
            = Some [(computeGain s2 ''t'', 0, RAMP_TIME / 3), (1, 0, 0.05)]"
    using f2 by (simp add: applyGain_def getGainNode_def setTargetAtTime_def computeGain_def)
  show ?thesis
    unfolding s1 s2 using f1 r1 f2 r2 g2 by simp
qed

end
